theory Spec2Isabelle
  imports Main "HOL-Library.AList"
begin

section \<open>Memory Scramble: the Board ADT of src/board.ts\<close>

text \<open>
  A shallow embedding of the mutable \<^verbatim>\<open>Board\<close> class. Every method takes the
  board and returns the board it leaves behind, together with either the error it throws
  or its normal return. A thrown \<^verbatim>\<open>Error\<close> is a value of \<open>error\<close>; the board
  paired with it is the state at the moment of the throw, so mutations made before the
  throw stay visible, as they do in the running program.

  Positions are integer pairs (the fields \<^verbatim>\<open>r\<close> and \<^verbatim>\<open>c\<close> of \<^verbatim>\<open>Pos\<close>).
  Labels are \<open>string\<close>s of 8-bit characters, so the whitespace class \<^verbatim>\<open>\s\<close> is the
  part of it below code point 256.
\<close>

subsection \<open>Data\<close>

type_synonym PlayerID = string

datatype Pos = Pos (pos_r: int) (pos_c: int)

record Slot =
  label :: string
  faceUp :: bool
  controller :: "PlayerID option"

text \<open>\<^verbatim>\<open>PendingOutcome\<close> is a tagged union with \<^verbatim>\<open>null\<close> as its third case.\<close>

datatype PendingOutcome =
  Matched Pos Pos
| Mismatched Pos Pos
| NoOutcome

text \<open>
  The messages of the thrown errors, by kind:
  \<^verbatim>\<open>Out of bounds (r,c)\<close>, \<^verbatim>\<open>1-A: empty space\<close>, \<^verbatim>\<open>1-D: card is controlled ...\<close>,
  \<^verbatim>\<open>No first card selected ...\<close>, \<^verbatim>\<open>2-A: second position is empty\<close>,
  \<^verbatim>\<open>2-B: second card is controlled\<close>, \<^verbatim>\<open>invalid transformed card\<close>,
  every \<^verbatim>\<open>RI: ...\<close> message, and every \<^verbatim>\<open>Internal: ...\<close> message.
\<close>

datatype error =
  OutOfBounds
| EmptySpace
| Contested
| NoFirst
| EmptyTarget
| SecondContested
| InvalidLabel
| RepViolation
| InternalError

text \<open>
  A \<^verbatim>\<open>Deferred\<close> stands for the suspended call that awaits its promise. Resolving it
  schedules that call's continuation as a job of the runtime: the retry of
  \<^verbatim>\<open>flipFirstAsync(pos, by)\<close>, or the snapshot that ends \<^verbatim>\<open>watch(forPlayer)\<close>.
\<close>

datatype Job =
  RetryFirst Pos PlayerID
| WatchDone PlayerID

text \<open>
  The fields of the class, in its order. The three JavaScript \<^verbatim>\<open>Map\<close>s are association
  lists in insertion order; \<open>waitQueues\<close> is keyed by the position itself (the key
  \<^verbatim>\<open>"r,c"\<close> determines it), and a queued \<^verbatim>\<open>Deferred\<close> is named by the player whose
  call it suspends. \<open>jobs\<close> is the runtime's queue of continuations scheduled by
  \<^verbatim>\<open>resolve()\<close> and not yet run.
\<close>

record Board =
  rows :: nat
  cols :: nat
  grid :: "Slot option list list"
  firstSelection :: "(PlayerID \<times> Pos) list"
  pending :: "(PlayerID \<times> PendingOutcome) list"
  waitQueues :: "(Pos \<times> PlayerID list) list"
  watchers :: "PlayerID list"
  jobs :: "Job list"

type_synonym outcome = "(error + unit) \<times> Board"

subsection \<open>Labels\<close>

text \<open>The characters matched by \<^verbatim>\<open>\s\<close>: TAB, LF, VT, FF, CR, space, NBSP.\<close>

definition isSpace :: "char \<Rightarrow> bool" where
  "isSpace ch = (ch \<in> set [CHR 0x09, CHR 0x0A, CHR 0x0B, CHR 0x0C, CHR 0x0D, CHR 0x20, CHR 0xA0])"

text \<open>\<^verbatim>\<open>cardRe = /^[^\s\n\r]+$/u\<close>.\<close>

definition cardRe :: "string \<Rightarrow> bool" where
  "cardRe l = (l \<noteq> [] \<and> list_all (\<lambda>ch. \<not> isSpace ch) l)"

definition trim :: "string \<Rightarrow> string" where
  "trim l = rev (dropWhile isSpace (rev (dropWhile isSpace l)))"

text \<open>
  The test that \<^verbatim>\<open>map\<close> and \<^verbatim>\<open>mapCards\<close> apply to a transformed label:
  \<^verbatim>\<open>out.length === 0 || out.trim() !== out || /\s/.test(out)\<close>.
\<close>

definition invalidOut :: "string \<Rightarrow> bool" where
  "invalidOut out = (length out = 0 \<or> trim out \<noteq> out \<or> list_ex isSpace out)"

subsection \<open>Grid helpers\<close>

definition row :: "int \<Rightarrow> Board \<Rightarrow> error + Slot option list" where
  "row i s = (if 0 \<le> i \<and> nat i < length (grid s) then Inr (grid s ! nat i) else Inl RepViolation)"

text \<open>\<^verbatim>\<open>row[c] ?? null\<close>: a column outside the row reads as \<^verbatim>\<open>null\<close>.\<close>

definition getCell :: "int \<Rightarrow> int \<Rightarrow> Board \<Rightarrow> error + Slot option" where
  "getCell i j s =
     (case row i s of
        Inl e \<Rightarrow> Inl e
      | Inr rw \<Rightarrow> Inr (if 0 \<le> j \<and> nat j < length rw then rw ! nat j else None))"

text \<open>
  \<^verbatim>\<open>row[c] = val\<close>: an index past the end of a JavaScript array extends it with holes,
  which read back as \<^verbatim>\<open>null\<close> through \<^verbatim>\<open>getCell\<close>.
\<close>

definition assign :: "'a option list \<Rightarrow> nat \<Rightarrow> 'a option \<Rightarrow> 'a option list" where
  "assign rw j v =
     (if j < length rw then rw[j := v] else rw @ replicate (j - length rw) None @ [v])"

definition setCell :: "int \<Rightarrow> int \<Rightarrow> Slot option \<Rightarrow> Board \<Rightarrow> error + Board" where
  "setCell i j val s =
     (case row i s of
        Inl e \<Rightarrow> Inl e
      | Inr rw \<Rightarrow>
          if j < 0 \<or> j \<ge> int (cols s) then Inl RepViolation
          else Inr (s\<lparr>grid := (grid s)[nat i := assign rw (nat j) val]\<rparr>))"

definition within :: "Pos \<Rightarrow> Board \<Rightarrow> bool" where
  "within p s = (pos_r p \<ge> 0 \<and> pos_r p < int (rows s) \<and> pos_c p \<ge> 0 \<and> pos_c p < int (cols s))"

definition slotAt :: "Pos \<Rightarrow> Board \<Rightarrow> error + Slot option" where
  "slotAt p s = (if \<not> within p s then Inl OutOfBounds else getCell (pos_r p) (pos_c p) s)"

text \<open>
  Assignment to a field of the \<^verbatim>\<open>Slot\<close> object that \<^verbatim>\<open>getCell\<close> returned for \<open>p\<close>:
  the object lives in the grid at \<open>p\<close> and nowhere else, so the write is an update there.
  It is only used after a read at \<open>p\<close> has returned a slot.
\<close>

definition modifySlot :: "Pos \<Rightarrow> (Slot \<Rightarrow> Slot) \<Rightarrow> Board \<Rightarrow> Board" where
  "modifySlot p f s =
     s\<lparr>grid := (grid s)[nat (pos_r p) :=
         (grid s ! nat (pos_r p))[nat (pos_c p) :=
            map_option f (grid s ! nat (pos_r p) ! nat (pos_c p))]]\<rparr>"

subsection \<open>The representation invariant\<close>

text \<open>
  What \<^verbatim>\<open>checkRep\<close> tests, in its order: the row count, each row's length, each
  non-empty cell's label and the face-down rule, and that the two positions of every
  recorded outcome are inside the board. Once the shape tests have passed, its double loop
  over \<^verbatim>\<open>getCell(r, c)\<close> visits exactly the elements of \<open>grid\<close>.
\<close>

definition slotOk :: "Slot option \<Rightarrow> bool" where
  "slotOk cell =
     (case cell of
        None \<Rightarrow> True
      | Some sl \<Rightarrow> cardRe (label sl) \<and> \<not> (\<not> faceUp sl \<and> controller sl \<noteq> None))"

definition outcomeOk :: "Board \<Rightarrow> PendingOutcome \<Rightarrow> bool" where
  "outcomeOk s out =
     (case out of
        NoOutcome \<Rightarrow> True
      | Matched a b \<Rightarrow> within a s \<and> within b s
      | Mismatched a b \<Rightarrow> within a s \<and> within b s)"

definition shapeOk :: "Board \<Rightarrow> bool" where
  "shapeOk s = (length (grid s) = rows s \<and> list_all (\<lambda>rw. length rw = cols s) (grid s))"

definition repOk :: "Board \<Rightarrow> bool" where
  "repOk s =
     (shapeOk s
      \<and> list_all (list_all slotOk) (grid s)
      \<and> list_all (\<lambda>(p, out). outcomeOk s out) (pending s))"

definition checkRep :: "Board \<Rightarrow> error + unit" where
  "checkRep s = (if repOk s then Inr () else Inl RepViolation)"

text \<open>The common tail of the methods: \<^verbatim>\<open>this.checkRep()\<close> as the last statement.\<close>

definition checked :: "Board \<Rightarrow> outcome" where
  "checked s = (checkRep s, s)"

subsection \<open>Wait queues and watchers\<close>

definition queueAt :: "Pos \<Rightarrow> Board \<Rightarrow> PlayerID list" where
  "queueAt p s = (case map_of (waitQueues s) p of None \<Rightarrow> [] | Some q \<Rightarrow> q)"

text \<open>The part of \<^verbatim>\<open>enqueueAndWait\<close> that runs before the caller suspends.\<close>

definition enqueueAndWait :: "Pos \<Rightarrow> PlayerID \<Rightarrow> Board \<Rightarrow> Board" where
  "enqueueAndWait p by s = s\<lparr>waitQueues := AList.update p (queueAt p s @ [by]) (waitQueues s)\<rparr>"

text \<open>\<^verbatim>\<open>wakeNext\<close>: shift the head of the queue of \<open>p\<close>, if there is one, and resolve it.\<close>

definition wakeNext :: "Pos \<Rightarrow> Board \<Rightarrow> Board" where
  "wakeNext p s =
     (case map_of (waitQueues s) p of
        None \<Rightarrow> s
      | Some [] \<Rightarrow> s
      | Some (d # q) \<Rightarrow>
          s\<lparr>waitQueues := AList.update p q (waitQueues s), jobs := jobs s @ [RetryFirst p d]\<rparr>)"

definition notifyChange :: "Board \<Rightarrow> Board" where
  "notifyChange s =
     (if length (watchers s) = 0 then s
      else s\<lparr>watchers := [], jobs := jobs s @ map WatchDone (watchers s)\<rparr>)"

text \<open>The part of \<^verbatim>\<open>watch\<close> that runs before the caller suspends.\<close>

definition watch :: "PlayerID \<Rightarrow> Board \<Rightarrow> Board" where
  "watch forPlayer s = s\<lparr>watchers := watchers s @ [forPlayer]\<rparr>"

subsection \<open>Cleanup before a first move (rules 3-A and 3-B)\<close>

definition pendingOf :: "PlayerID \<Rightarrow> Board \<Rightarrow> PendingOutcome" where
  "pendingOf p s = (case map_of (pending s) p of None \<Rightarrow> NoOutcome | Some out \<Rightarrow> out)"

text \<open>
  One pass of the loop \<^verbatim>\<open>for (const q of [first, second])\<close>, on the board and the flag
  \<^verbatim>\<open>flipped\<close>.
\<close>

definition turnDown :: "Pos \<Rightarrow> Board \<times> bool \<Rightarrow> error + Board \<times> bool" where
  "turnDown q sf =
     (case getCell (pos_r q) (pos_c q) (fst sf) of
        Inl e \<Rightarrow> Inl e
      | Inr None \<Rightarrow> Inr sf
      | Inr (Some cell) \<Rightarrow>
          if faceUp cell \<and> controller cell = None
          then Inr (modifySlot q (\<lambda>sl. sl\<lparr>faceUp := False\<rparr>) (fst sf), True)
          else Inr sf)"

definition clearPending :: "PlayerID \<Rightarrow> Board \<Rightarrow> Board" where
  "clearPending p s = s\<lparr>pending := AList.update p NoOutcome (pending s)\<rparr>"

definition settleBeforeNewFirstMove :: "PlayerID \<Rightarrow> Board \<Rightarrow> outcome" where
  "settleBeforeNewFirstMove p s =
     (case pendingOf p s of
        NoOutcome \<Rightarrow> (Inr (), s)
      | Matched a b \<Rightarrow>
          (case setCell (pos_r a) (pos_c a) None s of
             Inl e \<Rightarrow> (Inl e, s)
           | Inr s1 \<Rightarrow>
               (case setCell (pos_r b) (pos_c b) None s1 of
                  Inl e \<Rightarrow> (Inl e, s1)
                | Inr s2 \<Rightarrow> checked (clearPending p (notifyChange (wakeNext b (wakeNext a s2))))))
      | Mismatched first second \<Rightarrow>
          (case turnDown first (s, False) of
             Inl e \<Rightarrow> (Inl e, s)
           | Inr sf1 \<Rightarrow>
               (case turnDown second sf1 of
                  Inl e \<Rightarrow> (Inl e, fst sf1)
                | Inr sf2 \<Rightarrow>
                    checked (clearPending p (if snd sf2 then notifyChange (fst sf2) else fst sf2)))))"

subsection \<open>First card, synchronous\<close>

definition selectFirst :: "PlayerID \<Rightarrow> Pos \<Rightarrow> Board \<Rightarrow> Board" where
  "selectFirst by pos s = s\<lparr>firstSelection := AList.update by pos (firstSelection s)\<rparr>"

definition flipFirst :: "Pos \<Rightarrow> PlayerID \<Rightarrow> Board \<Rightarrow> outcome" where
  "flipFirst pos by s =
     (case settleBeforeNewFirstMove by s of
        (Inl e, s1) \<Rightarrow> (Inl e, s1)
      | (Inr u, s1) \<Rightarrow>
          (case slotAt pos s1 of
             Inl e \<Rightarrow> (Inl e, s1)
           | Inr None \<Rightarrow> (Inl EmptySpace, s1)
           | Inr (Some slot) \<Rightarrow>
               if \<not> faceUp slot then
                 checked (selectFirst by pos (notifyChange
                   (modifySlot pos (\<lambda>sl. sl\<lparr>faceUp := True, controller := Some by\<rparr>) s1)))
               else if controller slot = None \<or> controller slot = Some by then
                 checked (selectFirst by pos (modifySlot pos (\<lambda>sl. sl\<lparr>controller := Some by\<rparr>) s1))
               else (Inl Contested, s1)))"

subsection \<open>Second card\<close>

definition unselectFirst :: "PlayerID \<Rightarrow> Board \<Rightarrow> Board" where
  "unselectFirst by s = s\<lparr>firstSelection := AList.delete by (firstSelection s)\<rparr>"

definition relinquishFirstOnly :: "PlayerID \<Rightarrow> Board \<Rightarrow> outcome" where
  "relinquishFirstOnly by s =
     (case map_of (firstSelection s) by of
        None \<Rightarrow> (Inr (), s)
      | Some first \<Rightarrow>
          (case slotAt first s of
             Inl e \<Rightarrow> (Inl e, s)
           | Inr None \<Rightarrow> checked (unselectFirst by s)
           | Inr (Some s1) \<Rightarrow>
               checked (unselectFirst by
                 (wakeNext first (modifySlot first (\<lambda>sl. sl\<lparr>controller := None\<rparr>) s)))))"

text \<open>\<^verbatim>\<open>this.relinquishFirstOnly(by); throw new Error(...)\<close>.\<close>

definition relinquishThenThrow :: "PlayerID \<Rightarrow> error \<Rightarrow> Board \<Rightarrow> outcome" where
  "relinquishThenThrow by e s =
     (case relinquishFirstOnly by s of
        (Inl e', s1) \<Rightarrow> (Inl e', s1)
      | (Inr u, s1) \<Rightarrow> (Inl e, s1))"

definition setPending :: "PlayerID \<Rightarrow> PendingOutcome \<Rightarrow> Board \<Rightarrow> Board" where
  "setPending by out s = s\<lparr>pending := AList.update by out (pending s)\<rparr>"

text \<open>
  The labels are compared on the slots as read: \<open>l1\<close> is the label of the first card
  and \<open>l2\<close> that of the second.
\<close>

definition resolvePair :: "Pos \<Rightarrow> Pos \<Rightarrow> PlayerID \<Rightarrow> string \<Rightarrow> string \<Rightarrow> Board \<Rightarrow> Board" where
  "resolvePair first pos by l1 l2 s =
     (if l1 = l2 then
        setPending by (Matched first pos)
          (modifySlot pos (\<lambda>sl. sl\<lparr>controller := Some by\<rparr>)
            (modifySlot first (\<lambda>sl. sl\<lparr>controller := Some by\<rparr>) s))
      else
        setPending by (Mismatched first pos)
          (wakeNext pos (wakeNext first
            (modifySlot pos (\<lambda>sl. sl\<lparr>controller := None\<rparr>)
              (modifySlot first (\<lambda>sl. sl\<lparr>controller := None\<rparr>) s)))))"

definition flipSecond :: "Pos \<Rightarrow> PlayerID \<Rightarrow> Board \<Rightarrow> outcome" where
  "flipSecond pos by s =
     (case map_of (firstSelection s) by of
        None \<Rightarrow> (Inl NoFirst, s)
      | Some first \<Rightarrow>
          (case (if within pos s then getCell (pos_r pos) (pos_c pos) s else Inr None) of
             Inl e \<Rightarrow> (Inl e, s)
           | Inr None \<Rightarrow> relinquishThenThrow by EmptyTarget s
           | Inr (Some s2) \<Rightarrow>
               if faceUp s2 \<and> controller s2 \<noteq> None then relinquishThenThrow by SecondContested s
               else
                 let turnedUp = \<not> faceUp s2;
                     sA = (if turnedUp then modifySlot pos (\<lambda>sl. sl\<lparr>faceUp := True\<rparr>) s else s)
                 in (case slotAt first sA of
                       Inl e \<Rightarrow> (Inl e, sA)
                     | Inr None \<Rightarrow> (Inl InternalError, sA)
                     | Inr (Some s1) \<Rightarrow>
                         let sB = resolvePair first pos by (label s1) (label s2) sA;
                             sC = (if turnedUp then notifyChange sB else sB)
                         in checked (unselectFirst by sC))))"

subsection \<open>First card, waiting\<close>

text \<open>
  An asynchronous call either settles (it returns or throws) or suspends. The body of the
  \<^verbatim>\<open>while (true)\<close> loop of \<^verbatim>\<open>flipFirstAsync\<close> runs once per attempt: it returns,
  throws, or enqueues the caller and suspends; the loop goes round again only when the
  caller's job is run.
\<close>

datatype progress = Returned | Suspended

definition attemptFirst :: "Pos \<Rightarrow> PlayerID \<Rightarrow> Board \<Rightarrow> (error + progress) \<times> Board" where
  "attemptFirst pos by s =
     (case slotAt pos s of
        Inl e \<Rightarrow> (Inl e, s)
      | Inr None \<Rightarrow> (Inl EmptySpace, s)
      | Inr (Some slot) \<Rightarrow>
          if \<not> faceUp slot then
            (let s' = selectFirst by pos (notifyChange
                 (modifySlot pos (\<lambda>sl. sl\<lparr>faceUp := True, controller := Some by\<rparr>) s))
             in (map_sum id (\<lambda>u. Returned) (checkRep s'), s'))
          else if controller slot = None \<or> controller slot = Some by then
            (let s' = selectFirst by pos (modifySlot pos (\<lambda>sl. sl\<lparr>controller := Some by\<rparr>) s)
             in (map_sum id (\<lambda>u. Returned) (checkRep s'), s'))
          else (Inr Suspended, enqueueAndWait pos by s))"

definition flipFirstAsync :: "Pos \<Rightarrow> PlayerID \<Rightarrow> Board \<Rightarrow> (error + progress) \<times> Board" where
  "flipFirstAsync pos by s =
     (case settleBeforeNewFirstMove by s of
        (Inl e, s1) \<Rightarrow> (Inl e, s1)
      | (Inr u, s1) \<Rightarrow> attemptFirst pos by s1)"

definition flipSecondAsync :: "Pos \<Rightarrow> PlayerID \<Rightarrow> Board \<Rightarrow> (error + progress) \<times> Board" where
  "flipSecondAsync pos by s =
     (case flipSecond pos by s of (res, s') \<Rightarrow> (map_sum id (\<lambda>u. Returned) res, s'))"

text \<open>
  The runtime runs the oldest scheduled continuation. A woken first-card waiter goes round
  its loop; a woken watcher only reads the board.
\<close>

definition runJob :: "Board \<Rightarrow> Board" where
  "runJob s =
     (case jobs s of
        [] \<Rightarrow> s
      | RetryFirst pos by # js \<Rightarrow> snd (attemptFirst pos by (s\<lparr>jobs := js\<rparr>))
      | WatchDone p # js \<Rightarrow> s\<lparr>jobs := js\<rparr>)"

subsection \<open>Snapshot\<close>

fun decimal :: "nat \<Rightarrow> string" where
  "decimal n =
     (if n < 10 then [''0123456789'' ! n]
      else decimal (n div 10) @ [''0123456789'' ! (n mod 10)])"

definition spot :: "PlayerID \<Rightarrow> Slot option \<Rightarrow> string" where
  "spot forPlayer cell =
     (case cell of
        None \<Rightarrow> ''none''
      | Some sl \<Rightarrow>
          if \<not> faceUp sl then ''down''
          else if controller sl = Some forPlayer then ''my '' @ label sl
          else ''up '' @ label sl)"

text \<open>The cells in the order of the double loop, rows outside and columns inside.\<close>

definition positions :: "Board \<Rightarrow> (nat \<times> nat) list" where
  "positions s = concat (map (\<lambda>i. map (\<lambda>j. (i, j)) [0..<cols s]) [0..<rows s])"

fun spots :: "PlayerID \<Rightarrow> Board \<Rightarrow> (nat \<times> nat) list \<Rightarrow> error + string list" where
  "spots forPlayer s [] = Inr []"
| "spots forPlayer s ((i, j) # ps) =
     (case getCell (int i) (int j) s of
        Inl e \<Rightarrow> Inl e
      | Inr cell \<Rightarrow>
          (case spots forPlayer s ps of
             Inl e \<Rightarrow> Inl e
           | Inr out \<Rightarrow> Inr (spot forPlayer cell # out)))"

definition snapshot :: "PlayerID \<Rightarrow> Board \<Rightarrow> error + string" where
  "snapshot forPlayer s =
     (case spots forPlayer s (positions s) of
        Inl e \<Rightarrow> Inl e
      | Inr out \<Rightarrow>
          Inr (concat (map (\<lambda>l. l @ [CHR 0x0A]) ((decimal (rows s) @ ''x'' @ decimal (cols s)) # out))))"

subsection \<open>The transformer\<close>

text \<open>
  Phase one of \<^verbatim>\<open>map\<close> and of \<^verbatim>\<open>mapCards\<close>: \<^verbatim>\<open>byValue\<close>, the positions of the
  non-empty cells grouped by label, groups in order of first occurrence.
\<close>

definition positionsOf :: "string \<Rightarrow> (string \<times> Pos list) list \<Rightarrow> Pos list" where
  "positionsOf v byValue = (case map_of byValue v of None \<Rightarrow> [] | Some l \<Rightarrow> l)"

fun groupCells :: "Board \<Rightarrow> (nat \<times> nat) list \<Rightarrow> (string \<times> Pos list) list
    \<Rightarrow> error + (string \<times> Pos list) list" where
  "groupCells s [] byValue = Inr byValue"
| "groupCells s ((i, j) # ps) byValue =
     (case getCell (int i) (int j) s of
        Inl e \<Rightarrow> Inl e
      | Inr None \<Rightarrow> groupCells s ps byValue
      | Inr (Some cell) \<Rightarrow>
          groupCells s ps
            (AList.update (label cell)
               (positionsOf (label cell) byValue @ [Pos (int i) (int j)]) byValue))"

definition entriesOf :: "Board \<Rightarrow> error + (string \<times> Pos list) list" where
  "entriesOf s = groupCells s (positions s) []"

text \<open>
  Phase two: \<^verbatim>\<open>transform\<close> is called on the key of every entry, in order, and
  \<^verbatim>\<open>Promise.all\<close> rejects when one of the results fails the test. \<open>invocations\<close> is
  the list of arguments that \<^verbatim>\<open>transform\<close> receives during one call.
\<close>

definition invocations :: "(string \<times> Pos list) list \<Rightarrow> string list" where
  "invocations entries = map fst entries"

definition results :: "(string \<Rightarrow> string) \<Rightarrow> (string \<times> Pos list) list
    \<Rightarrow> error + (string \<times> string) list" where
  "results transform entries =
     (if list_ex (\<lambda>orig. invalidOut (transform orig)) (invocations entries) then Inl InvalidLabel
      else Inr (map (\<lambda>orig. (orig, transform orig)) (invocations entries)))"

text \<open>Phase three of \<^verbatim>\<open>map\<close>: the inner and the outer commit loop.\<close>

fun commitPositions :: "string \<Rightarrow> Pos list \<Rightarrow> Board \<Rightarrow> outcome" where
  "commitPositions newVal [] s = (Inr (), s)"
| "commitPositions newVal (p # ps) s =
     (case getCell (pos_r p) (pos_c p) s of
        Inl e \<Rightarrow> (Inl e, s)
      | Inr None \<Rightarrow> commitPositions newVal ps s
      | Inr (Some cell) \<Rightarrow> commitPositions newVal ps (modifySlot p (\<lambda>sl. sl\<lparr>label := newVal\<rparr>) s))"

fun commitGroups :: "(string \<times> string) list \<Rightarrow> (string \<times> Pos list) list \<Rightarrow> Board \<Rightarrow> outcome" where
  "commitGroups mapping [] s = (Inr (), s)"
| "commitGroups mapping ((orig, ps) # es) s =
     (case map_of mapping orig of
        None \<Rightarrow> commitGroups mapping es s
      | Some newVal \<Rightarrow>
          (case commitPositions newVal ps s of
             (Inl e, s1) \<Rightarrow> (Inl e, s1)
           | (Inr u, s1) \<Rightarrow> commitGroups mapping es s1))"

text \<open>
  What \<^verbatim>\<open>map\<close> does once the grouping is taken, on the board \<open>s\<close> it finds when it
  resumes. The hook \<^verbatim>\<open>this._notify\<close> is a field that nothing ever assigns, so
  \<^verbatim>\<open>this._notify?.()\<close> does nothing.
\<close>

definition mapFinish :: "(string \<Rightarrow> string) \<Rightarrow> (string \<times> Pos list) list \<Rightarrow> Board \<Rightarrow> outcome" where
  "mapFinish transform entries s =
     (case results transform entries of
        Inl e \<Rightarrow> (Inl e, s)
      | Inr mapping \<Rightarrow>
          (case commitGroups mapping entries s of
             (Inl e, s1) \<Rightarrow> (Inl e, s1)
           | (Inr u, s1) \<Rightarrow> checked s1))"

text \<open>
  A call of \<^verbatim>\<open>map\<close> that starts on board \<open>s0\<close> and resumes after its \<^verbatim>\<open>await\<close> on
  board \<open>s\<close>; other calls may have run in between. A throw while grouping happens
  before the \<^verbatim>\<open>await\<close>, on \<open>s0\<close>. \<open>map_board\<close> is the call that nothing
  interleaves with.
\<close>

definition mapInterleaved :: "(string \<Rightarrow> string) \<Rightarrow> Board \<Rightarrow> Board \<Rightarrow> outcome" where
  "mapInterleaved transform s0 s =
     (case entriesOf s0 of
        Inl e \<Rightarrow> (Inl e, s0)
      | Inr entries \<Rightarrow> mapFinish transform entries s)"

definition map_board :: "(string \<Rightarrow> string) \<Rightarrow> Board \<Rightarrow> outcome" where
  "map_board transform s = mapInterleaved transform s s"

text \<open>\<^verbatim>\<open>mapCards\<close>: the commit loops carry the flag \<^verbatim>\<open>changed\<close>.\<close>

fun commitChanged :: "string \<Rightarrow> Pos list \<Rightarrow> Board \<times> bool \<Rightarrow> (error + unit) \<times> Board \<times> bool" where
  "commitChanged newVal [] sc = (Inr (), sc)"
| "commitChanged newVal (p # ps) sc =
     (case getCell (pos_r p) (pos_c p) (fst sc) of
        Inl e \<Rightarrow> (Inl e, sc)
      | Inr None \<Rightarrow> commitChanged newVal ps sc
      | Inr (Some cell) \<Rightarrow>
          if label cell \<noteq> newVal
          then commitChanged newVal ps (modifySlot p (\<lambda>sl. sl\<lparr>label := newVal\<rparr>) (fst sc), True)
          else commitChanged newVal ps sc)"

fun commitGroupsChanged :: "(string \<times> string) list \<Rightarrow> (string \<times> Pos list) list \<Rightarrow> Board \<times> bool
    \<Rightarrow> (error + unit) \<times> Board \<times> bool" where
  "commitGroupsChanged mapping [] sc = (Inr (), sc)"
| "commitGroupsChanged mapping ((orig, ps) # es) sc =
     (case map_of mapping orig of
        None \<Rightarrow> commitGroupsChanged mapping es sc
      | Some newVal \<Rightarrow>
          if newVal = orig then commitGroupsChanged mapping es sc
          else
            (case commitChanged newVal ps sc of
               (Inl e, sc1) \<Rightarrow> (Inl e, sc1)
             | (Inr u, sc1) \<Rightarrow> commitGroupsChanged mapping es sc1))"

definition mapCardsFinish :: "(string \<Rightarrow> string) \<Rightarrow> (string \<times> Pos list) list \<Rightarrow> Board \<Rightarrow> outcome" where
  "mapCardsFinish transform entries s =
     (case results transform entries of
        Inl e \<Rightarrow> (Inl e, s)
      | Inr mapping \<Rightarrow>
          (case commitGroupsChanged mapping entries (s, False) of
             (Inl e, sc) \<Rightarrow> (Inl e, fst sc)
           | (Inr u, sc) \<Rightarrow> checked (if snd sc then notifyChange (fst sc) else fst sc)))"

definition mapCardsInterleaved :: "PlayerID \<Rightarrow> (string \<Rightarrow> string) \<Rightarrow> Board \<Rightarrow> Board \<Rightarrow> outcome" where
  "mapCardsInterleaved player transform s0 s =
     (case entriesOf s0 of
        Inl e \<Rightarrow> (Inl e, s0)
      | Inr entries \<Rightarrow> mapCardsFinish transform entries s)"

definition mapCards :: "PlayerID \<Rightarrow> (string \<Rightarrow> string) \<Rightarrow> Board \<Rightarrow> outcome" where
  "mapCards player transform s = mapCardsInterleaved player transform s s"

subsection \<open>Construction\<close>

text \<open>
  The private constructor, as \<^verbatim>\<open>parseFromFile\<close> calls it with the card lines of the
  file: every cell face down and uncontrolled, no selections, no outcomes, no waiters.
\<close>

definition freshSlot :: "string \<Rightarrow> Slot option" where
  "freshSlot l = Some \<lparr>label = l, faceUp = False, controller = None\<rparr>"

definition newBoard :: "nat \<Rightarrow> nat \<Rightarrow> string list \<Rightarrow> error + Board" where
  "newBoard nr nc labels =
     (if \<exists>idx \<in> set (map (\<lambda>(i, j). i * nc + j) (concat (map (\<lambda>i. map (\<lambda>j. (i, j)) [0..<nc]) [0..<nr]))).
           idx \<ge> length labels
      then Inl InternalError
      else
        (let s = \<lparr>rows = nr, cols = nc,
                  grid = map (\<lambda>i. map (\<lambda>j. freshSlot (labels ! (i * nc + j))) [0..<nc]) [0..<nr],
                  firstSelection = [], pending = [], waitQueues = [], watchers = [], jobs = []\<rparr>
         in case checkRep s of Inl e \<Rightarrow> Inl e | Inr u \<Rightarrow> Inr s))"

subsection \<open>Observations used in the statements\<close>

text \<open>The grid without its labels: for each cell, whether it is empty, its face and its controller.\<close>

definition faces :: "Board \<Rightarrow> (bool \<times> PlayerID option) option list list" where
  "faces s = map (map (map_option (\<lambda>sl. (faceUp sl, controller sl)))) (grid s)"

text \<open>Everything in the state except the labels.\<close>

definition unlabelled :: "Board \<Rightarrow>
    nat \<times> nat \<times> (bool \<times> PlayerID option) option list list \<times> (PlayerID \<times> Pos) list
    \<times> (PlayerID \<times> PendingOutcome) list \<times> (Pos \<times> PlayerID list) list \<times> PlayerID list \<times> Job list" where
  "unlabelled s =
     (rows s, cols s, faces s, firstSelection s, pending s, waitQueues s, watchers s, jobs s)"

text \<open>Every recorded first selection is inside the board (the constructor and the flips keep it so).\<close>

definition selectionsOk :: "Board \<Rightarrow> bool" where
  "selectionsOk s = list_all (\<lambda>(p, q). within q s) (firstSelection s)"

subsection \<open>Example boards\<close>

text \<open>
  The boards of the examples: one row of two cards \<^verbatim>\<open>u\<close>, and one row with the cards
  \<^verbatim>\<open>a\<close> and \<^verbatim>\<open>b\<close>, as the constructor builds them.
\<close>

definition board_uu :: Board where
  "board_uu =
     \<lparr>rows = 1, cols = 2, grid = [[freshSlot ''u'', freshSlot ''u'']],
      firstSelection = [], pending = [], waitQueues = [], watchers = [], jobs = []\<rparr>"

definition board_ab :: Board where
  "board_ab =
     \<lparr>rows = 1, cols = 2, grid = [[freshSlot ''a'', freshSlot ''b'']],
      firstSelection = [], pending = [], waitQueues = [], watchers = [], jobs = []\<rparr>"

text \<open>
  The board \<open>board_uu\<close> after \<^verbatim>\<open>flipFirst((0,0), alice)\<close> and
  \<^verbatim>\<open>flipSecond((0,1), alice)\<close>: alice holds the matched pair, not yet removed.
\<close>

definition board_uu_matched :: Board where
  "board_uu_matched =
     \<lparr>rows = 1, cols = 2,
      grid = [[Some \<lparr>label = ''u'', faceUp = True, controller = Some ''alice''\<rparr>,
               Some \<lparr>label = ''u'', faceUp = True, controller = Some ''alice''\<rparr>]],
      firstSelection = [], pending = [(''alice'', Matched (Pos 0 0) (Pos 0 1))],
      waitQueues = [], watchers = [], jobs = []\<rparr>"

text \<open>The board \<open>board_uu\<close> after \<^verbatim>\<open>flipFirst((0,0), alice)\<close>.\<close>

definition board_uu_first :: Board where
  "board_uu_first =
     \<lparr>rows = 1, cols = 2,
      grid = [[Some \<lparr>label = ''u'', faceUp = True, controller = Some ''alice''\<rparr>,
               Some \<lparr>label = ''u'', faceUp = False, controller = None\<rparr>]],
      firstSelection = [(''alice'', Pos 0 0)], pending = [],
      waitQueues = [], watchers = [], jobs = []\<rparr>"

text \<open>
  The board \<open>board_uu_first\<close> after \<^verbatim>\<open>flipFirst((0,1), bob)\<close>, with carol and then
  dave suspended in \<^verbatim>\<open>flipFirstAsync((0,1), _)\<close>: both cards are held, and bob's card
  has two waiters.
\<close>

definition board_uu_contested :: Board where
  "board_uu_contested =
     \<lparr>rows = 1, cols = 2,
      grid = [[Some \<lparr>label = ''u'', faceUp = True, controller = Some ''alice''\<rparr>,
               Some \<lparr>label = ''u'', faceUp = True, controller = Some ''bob''\<rparr>]],
      firstSelection = [(''alice'', Pos 0 0), (''bob'', Pos 0 1)], pending = [],
      waitQueues = [(Pos 0 1, [''carol'', ''dave''])], watchers = [], jobs = []\<rparr>"

text \<open>
  The board \<open>board_uu_matched\<close> with bob and then carol suspended in
  \<^verbatim>\<open>flipFirstAsync((0,0), _)\<close>: two waiters on a card of alice's matched pair.
\<close>

definition board_uu_waiting :: Board where
  "board_uu_waiting =
     \<lparr>rows = 1, cols = 2,
      grid = [[Some \<lparr>label = ''u'', faceUp = True, controller = Some ''alice''\<rparr>,
               Some \<lparr>label = ''u'', faceUp = True, controller = Some ''alice''\<rparr>]],
      firstSelection = [], pending = [(''alice'', Matched (Pos 0 0) (Pos 0 1))],
      waitQueues = [(Pos 0 0, [''bob'', ''carol''])], watchers = [], jobs = []\<rparr>"

subsection \<open>Reachable boards\<close>

definition cellOf :: "Board \<Rightarrow> Pos \<Rightarrow> Slot option" where
  "cellOf s q = grid s ! nat (pos_r q) ! nat (pos_c q)"

text \<open>
  A recorded first selection whose card is still on the board is face up and controlled
  by the player who selected it.
\<close>

definition selectionHeld :: "Board \<Rightarrow> bool" where
  "selectionHeld s =
     (\<forall>p q sl. map_of (firstSelection s) p = Some q \<and> cellOf s q = Some sl
        \<longrightarrow> faceUp sl \<and> controller sl = Some p)"

definition boardInv :: "Board \<Rightarrow> bool" where
  "boardInv s = (repOk s \<and> selectionsOk s \<and> selectionHeld s)"

text \<open>
  The boards that can be observed between method calls: a board built by the constructor,
  and then any sequence of calls of the public methods and of runs of scheduled
  continuations, in any order. \<^verbatim>\<open>snapshot\<close> and \<^verbatim>\<open>hasFirstSelection\<close> only read the
  board. A call of \<^verbatim>\<open>map\<close> or \<^verbatim>\<open>mapCards\<close> takes its grouping on one reachable board
  and commits on a later one; the rule allows any reachable board for the commit.
\<close>

inductive reachable :: "Board \<Rightarrow> bool" where
  construct: "newBoard nr nc labels = Inr s \<Longrightarrow> reachable s"
| settle: "reachable s \<Longrightarrow> reachable (snd (settleBeforeNewFirstMove p s))"
| first: "reachable s \<Longrightarrow> reachable (snd (flipFirst pos p s))"
| second: "reachable s \<Longrightarrow> reachable (snd (flipSecond pos p s))"
| firstAsync: "reachable s \<Longrightarrow> reachable (snd (flipFirstAsync pos p s))"
| secondAsync: "reachable s \<Longrightarrow> reachable (snd (flipSecondAsync pos p s))"
| job: "reachable s \<Longrightarrow> reachable (runJob s)"
| watching: "reachable s \<Longrightarrow> reachable (watch p s)"
| mapping: "reachable s0 \<Longrightarrow> entriesOf s0 = Inr entries \<Longrightarrow> reachable s
    \<Longrightarrow> reachable (snd (mapFinish transform entries s))"
| mappingCards: "reachable s0 \<Longrightarrow> entriesOf s0 = Inr entries \<Longrightarrow> reachable s
    \<Longrightarrow> reachable (snd (mapCardsFinish transform entries s))"

section \<open>Properties\<close>

subsection \<open>Slot updates\<close>

lemma map_update_same:
  assumes "\<And>x. f (h x) = f x"
  shows "map f (xs[j := h (xs ! j)]) = map f xs"
proof (cases "j < length xs")
  case True
  then show ?thesis by (simp add: map_update assms list_update_same_conv)
next
  case False
  then have "length xs \<le> j" by simp
  then show ?thesis by (simp add: list_update_beyond)
qed

lemma modifySlot_fields [simp]:
  "rows (modifySlot p f s) = rows s"
  "cols (modifySlot p f s) = cols s"
  "firstSelection (modifySlot p f s) = firstSelection s"
  "pending (modifySlot p f s) = pending s"
  "waitQueues (modifySlot p f s) = waitQueues s"
  "watchers (modifySlot p f s) = watchers s"
  "jobs (modifySlot p f s) = jobs s"
  by (simp_all add: modifySlot_def)

lemma faces_relabel: "faces (modifySlot p (\<lambda>sl. sl\<lparr>label := v\<rparr>) s) = faces s"
proof -
  let ?g = "map (map_option (\<lambda>sl. (faceUp sl, controller sl)))"
  let ?h = "\<lambda>rw. rw[nat (pos_c p) := map_option (\<lambda>sl. sl\<lparr>label := v\<rparr>) (rw ! nat (pos_c p))]"
  have "\<And>rw. ?g (?h rw) = ?g rw"
    by (rule map_update_same) (simp add: option.map_comp comp_def)
  then have "map ?g ((grid s)[nat (pos_r p) := ?h (grid s ! nat (pos_r p))]) = map ?g (grid s)"
    by (rule map_update_same)
  then show ?thesis by (simp add: faces_def modifySlot_def)
qed

lemma unlabelled_relabel: "unlabelled (modifySlot p (\<lambda>sl. sl\<lparr>label := v\<rparr>) s) = unlabelled s"
  by (simp add: unlabelled_def faces_relabel)

subsection \<open>The transformer leaves everything but the labels alone\<close>

lemma unlabelled_commitPositions: "unlabelled (snd (commitPositions v ps s)) = unlabelled s"
  by (induction ps arbitrary: s) (auto simp: unlabelled_relabel split: sum.splits option.splits)

lemma unlabelled_commitGroups: "unlabelled (snd (commitGroups m es s)) = unlabelled s"
proof (induction es arbitrary: s)
  case Nil
  then show ?case by simp
next
  case (Cons a es)
  obtain orig ps where a: "a = (orig, ps)" by (cases a)
  show ?case
  proof (cases "map_of m orig")
    case None
    then show ?thesis using Cons a by simp
  next
    case (Some v)
    obtain res s1 where c: "commitPositions v ps s = (res, s1)" by (cases "commitPositions v ps s")
    have "unlabelled s1 = unlabelled s" using unlabelled_commitPositions[of v ps s] c by simp
    then show ?thesis using Cons a Some c by (cases res) simp_all
  qed
qed

lemma unlabelled_mapFinish: "unlabelled (snd (mapFinish t es s)) = unlabelled s"
proof -
  have "\<And>m. unlabelled (snd (commitGroups m es s)) = unlabelled s" by (rule unlabelled_commitGroups)
  then show ?thesis
    by (auto simp: mapFinish_def checked_def split: sum.splits prod.splits) (metis snd_conv)+
qed

text \<open>
  C8. A call of \<^verbatim>\<open>map\<close> changes no cell's face or controller and no player's first
  selection or pending outcome: whatever the transform, and whether the call returns or
  throws, the state it leaves differs from the state it found in cell labels only (same
  dimensions, same empty cells, same faces and controllers, same selections, outcomes,
  wait queues, watchers and scheduled jobs).
\<close>

theorem map_frame: "unlabelled (snd (map_board transform s)) = unlabelled s"
  by (simp add: map_board_def mapInterleaved_def unlabelled_mapFinish split: sum.splits)

subsection \<open>The example boards are boards of the constructor\<close>

lemma new_uu: "newBoard 1 2 [''u'', ''u''] = Inr board_uu"
  by (simp add: newBoard_def board_uu_def checkRep_def repOk_def shapeOk_def slotOk_def freshSlot_def
      cardRe_def isSpace_def numeral_2_eq_2)

lemma new_ab: "newBoard 1 2 [''a'', ''b''] = Inr board_ab"
  by (simp add: newBoard_def board_ab_def checkRep_def repOk_def shapeOk_def slotOk_def freshSlot_def
      cardRe_def isSpace_def numeral_2_eq_2)

subsection \<open>Reading and updating the grid\<close>

lemma getCell_in:
  assumes "shapeOk s" "i < rows s" "j < cols s"
  shows "getCell (int i) (int j) s = Inr (grid s ! i ! j)"
  using assms by (simp add: getCell_def row_def shapeOk_def list_all_length)

lemma getCell_within:
  assumes "shapeOk s" "within p s"
  shows "getCell (pos_r p) (pos_c p) s = Inr (grid s ! nat (pos_r p) ! nat (pos_c p))"
proof -
  have "nat (pos_r p) < rows s" "nat (pos_c p) < cols s" "0 \<le> pos_r p" "0 \<le> pos_c p"
    using assms(2) by (auto simp: within_def)
  then show ?thesis using getCell_in[OF assms(1), of "nat (pos_r p)" "nat (pos_c p)"] by simp
qed

lemma slotAt_within:
  "shapeOk s \<Longrightarrow> within p s \<Longrightarrow> slotAt p s = Inr (grid s ! nat (pos_r p) ! nat (pos_c p))"
  by (simp add: slotAt_def getCell_within)

lemma within_modifySlot [simp]: "within q (modifySlot p f s) = within q s"
  by (simp add: within_def)

lemma length_grid_modifySlot [simp]: "length (grid (modifySlot p f s)) = length (grid s)"
  by (simp add: modifySlot_def)

lemma list_all_update:
  "list_all P xs \<Longrightarrow> (i < length xs \<Longrightarrow> P y) \<Longrightarrow> list_all P (xs[i := y])"
proof (cases "i < length xs")
  case True
  assume "list_all P xs" "i < length xs \<Longrightarrow> P y"
  then show ?thesis using True
    by (auto simp: list_all_iff dest!: subsetD[OF set_update_subset_insert])
next
  case False
  assume "list_all P xs"
  then show ?thesis using False by (simp add: list_update_beyond)
qed

lemma shapeOk_modifySlot [simp]: "shapeOk (modifySlot p f s) = shapeOk s"
proof -
  have ml: "map length (grid (modifySlot p f s)) = map length (grid s)"
    unfolding modifySlot_def
    using map_update_same[where f=length and xs="grid s" and j="nat (pos_r p)"
        and h="\<lambda>rw. rw[nat (pos_c p) := map_option f (rw ! nat (pos_c p))]"]
    by simp
  have eq: "list_all (\<lambda>rw. length rw = n) g = list_all (\<lambda>k. k = n) (map length g)"
    for g :: "Slot option list list" and n
    by (induction g) simp_all
  have "list_all (\<lambda>rw. length rw = cols s) (grid (modifySlot p f s))
      = list_all (\<lambda>rw. length rw = cols s) (grid s)"
    by (simp only: eq ml)
  then show ?thesis by (simp add: shapeOk_def)
qed

lemma grid_modifySlot:
  assumes "i < length (grid s)" "j < length (grid s ! i)"
  shows "grid (modifySlot p f s) ! i ! j =
     (if i = nat (pos_r p) \<and> j = nat (pos_c p) then map_option f (grid s ! i ! j) else grid s ! i ! j)"
proof (cases "i = nat (pos_r p)")
  case True
  then show ?thesis using assms by (simp add: modifySlot_def nth_list_update)
next
  case False
  then show ?thesis using assms by (simp add: modifySlot_def)
qed

lemma slots_modifySlot:
  assumes "list_all (list_all P) (grid s)"
    and "\<And>sl. nat (pos_r p) < length (grid s) \<Longrightarrow> nat (pos_c p) < length (grid s ! nat (pos_r p))
          \<Longrightarrow> grid s ! nat (pos_r p) ! nat (pos_c p) = Some sl \<Longrightarrow> P (Some (f sl))"
    and "P None"
  shows "list_all (list_all P) (grid (modifySlot p f s))"
  unfolding modifySlot_def
  apply simp
  apply (rule list_all_update[OF assms(1)])
  apply (rule list_all_update)
  using assms(1) apply (simp add: list_all_length)
  apply (cases "grid s ! nat (pos_r p) ! nat (pos_c p)")
  using assms(2,3) apply auto
  done

subsection \<open>The representation invariant under the elementary updates\<close>

lemma wakeNext_fields [simp]:
  "rows (wakeNext p s) = rows s"
  "cols (wakeNext p s) = cols s"
  "grid (wakeNext p s) = grid s"
  "firstSelection (wakeNext p s) = firstSelection s"
  "pending (wakeNext p s) = pending s"
  "watchers (wakeNext p s) = watchers s"
  by (simp_all add: wakeNext_def split: option.splits list.splits)

lemma notifyChange_fields [simp]:
  "rows (notifyChange s) = rows s"
  "cols (notifyChange s) = cols s"
  "grid (notifyChange s) = grid s"
  "firstSelection (notifyChange s) = firstSelection s"
  "pending (notifyChange s) = pending s"
  "waitQueues (notifyChange s) = waitQueues s"
  by (simp_all add: notifyChange_def)

lemma selectFirst_fields [simp]:
  "rows (selectFirst by pos s) = rows s"
  "cols (selectFirst by pos s) = cols s"
  "grid (selectFirst by pos s) = grid s"
  "pending (selectFirst by pos s) = pending s"
  "waitQueues (selectFirst by pos s) = waitQueues s"
  "watchers (selectFirst by pos s) = watchers s"
  "jobs (selectFirst by pos s) = jobs s"
  by (simp_all add: selectFirst_def)

lemma unselectFirst_fields [simp]:
  "rows (unselectFirst by s) = rows s"
  "cols (unselectFirst by s) = cols s"
  "grid (unselectFirst by s) = grid s"
  "pending (unselectFirst by s) = pending s"
  "waitQueues (unselectFirst by s) = waitQueues s"
  "watchers (unselectFirst by s) = watchers s"
  "jobs (unselectFirst by s) = jobs s"
  by (simp_all add: unselectFirst_def)

lemma enqueueAndWait_fields [simp]:
  "rows (enqueueAndWait p by s) = rows s"
  "cols (enqueueAndWait p by s) = cols s"
  "grid (enqueueAndWait p by s) = grid s"
  "firstSelection (enqueueAndWait p by s) = firstSelection s"
  "pending (enqueueAndWait p by s) = pending s"
  "watchers (enqueueAndWait p by s) = watchers s"
  "jobs (enqueueAndWait p by s) = jobs s"
  by (simp_all add: enqueueAndWait_def)

lemma clearPending_fields [simp]:
  "rows (clearPending p s) = rows s"
  "cols (clearPending p s) = cols s"
  "grid (clearPending p s) = grid s"
  "firstSelection (clearPending p s) = firstSelection s"
  "waitQueues (clearPending p s) = waitQueues s"
  "watchers (clearPending p s) = watchers s"
  "jobs (clearPending p s) = jobs s"
  by (simp_all add: clearPending_def)

lemma setPending_fields [simp]:
  "rows (setPending p out s) = rows s"
  "cols (setPending p out s) = cols s"
  "grid (setPending p out s) = grid s"
  "firstSelection (setPending p out s) = firstSelection s"
  "waitQueues (setPending p out s) = waitQueues s"
  "watchers (setPending p out s) = watchers s"
  "jobs (setPending p out s) = jobs s"
  by (simp_all add: setPending_def)

lemma outcomeOk_cong: "rows s' = rows s \<Longrightarrow> cols s' = cols s \<Longrightarrow> outcomeOk s' = outcomeOk s"
  by (rule ext) (simp add: outcomeOk_def within_def split: PendingOutcome.splits)

lemma repOk_cong:
  assumes "rows s' = rows s" "cols s' = cols s" "grid s' = grid s" "pending s' = pending s"
  shows "repOk s' = repOk s"
  using assms outcomeOk_cong[OF assms(1,2)] by (simp add: repOk_def shapeOk_def)

lemma repOk_wakeNext [simp]: "repOk (wakeNext p s) = repOk s"
  by (rule repOk_cong) simp_all

lemma repOk_notifyChange [simp]: "repOk (notifyChange s) = repOk s"
  by (rule repOk_cong) simp_all

lemma repOk_selectFirst [simp]: "repOk (selectFirst by pos s) = repOk s"
  by (rule repOk_cong) simp_all

lemma repOk_unselectFirst [simp]: "repOk (unselectFirst by s) = repOk s"
  by (rule repOk_cong) simp_all

lemma repOk_enqueueAndWait [simp]: "repOk (enqueueAndWait p by s) = repOk s"
  by (rule repOk_cong) simp_all

lemma list_all_alist_update:
  "list_all (\<lambda>(k, v). P v) al \<Longrightarrow> P v \<Longrightarrow> list_all (\<lambda>(k, v). P v) (AList.update k v al)"
  by (induction al) auto

lemma repOk_setPending:
  assumes "repOk s" "outcomeOk s out"
  shows "repOk (setPending p out s)"
proof -
  have o: "outcomeOk (setPending p out s) = outcomeOk s" by (rule outcomeOk_cong) simp_all
  have "list_all (\<lambda>(p, out). outcomeOk s out) (AList.update p out (pending s))"
    using assms by (intro list_all_alist_update) (simp_all add: repOk_def)
  then show ?thesis using assms(1) by (simp add: repOk_def o shapeOk_def) (simp add: setPending_def)
qed

lemma repOk_clearPending: "repOk s \<Longrightarrow> repOk (clearPending p s)"
  using repOk_setPending[of s NoOutcome p] by (simp add: clearPending_def setPending_def outcomeOk_def)

lemma repOk_modifySlot:
  assumes "repOk s"
    and "\<And>sl. grid s ! nat (pos_r p) ! nat (pos_c p) = Some sl \<Longrightarrow> slotOk (Some sl) \<Longrightarrow> slotOk (Some (f sl))"
  shows "repOk (modifySlot p f s)"
proof -
  have o: "outcomeOk (modifySlot p f s) = outcomeOk s" by (rule outcomeOk_cong) simp_all
  have all: "list_all (list_all slotOk) (grid s)" using assms(1) by (simp add: repOk_def)
  have "list_all (list_all slotOk) (grid (modifySlot p f s))"
  proof (rule slots_modifySlot[OF all])
    fix sl
    assume a: "nat (pos_r p) < length (grid s)" "nat (pos_c p) < length (grid s ! nat (pos_r p))"
      "grid s ! nat (pos_r p) ! nat (pos_c p) = Some sl"
    have "slotOk (grid s ! nat (pos_r p) ! nat (pos_c p))"
      using all a(1,2) by (simp add: list_all_length)
    then show "slotOk (Some (f sl))" using assms(2) a(3) by simp
  next
    show "slotOk None" by (simp add: slotOk_def)
  qed
  then show ?thesis using assms(1) by (simp add: repOk_def o)
qed

subsection \<open>Cleanup on a board that satisfies the invariant\<close>

lemma pending_within:
  assumes "repOk s" "pendingOf p s = Matched a b \<or> pendingOf p s = Mismatched a b"
  shows "within a s \<and> within b s"
proof -
  obtain out where o: "map_of (pending s) p = Some out" "out = Matched a b \<or> out = Mismatched a b"
    using assms(2) by (auto simp: pendingOf_def split: option.splits)
  then have "(p, out) \<in> set (pending s)" by (simp add: map_of_SomeD)
  then have "outcomeOk s out" using assms(1) by (auto simp: repOk_def list_all_iff)
  then show ?thesis using o(2) by (auto simp: outcomeOk_def)
qed

lemma setCell_ok:
  assumes "repOk s" "within a s" "slotOk v"
  obtains s' where "setCell (pos_r a) (pos_c a) v s = Inr s'" "repOk s'"
    "rows s' = rows s" "cols s' = cols s" "firstSelection s' = firstSelection s"
    "pending s' = pending s" "waitQueues s' = waitQueues s" "watchers s' = watchers s"
    "jobs s' = jobs s"
proof -
  let ?i = "nat (pos_r a)" and ?j = "nat (pos_c a)"
  let ?s' = "s\<lparr>grid := (grid s)[?i := (grid s ! ?i)[?j := v]]\<rparr>"
  have sh: "shapeOk s" using assms(1) by (simp add: repOk_def)
  have b: "0 \<le> pos_r a" "0 \<le> pos_c a" "?i < length (grid s)" "?j < cols s" "pos_c a < int (cols s)"
    using assms(2) sh by (auto simp: within_def shapeOk_def)
  have len: "length (grid s ! ?i) = cols s" using sh b(3) by (simp add: shapeOk_def list_all_length)
  have eq: "setCell (pos_r a) (pos_c a) v s = Inr ?s'"
    using b len by (simp add: setCell_def row_def assign_def)
  have o: "outcomeOk ?s' = outcomeOk s" by (rule outcomeOk_cong) simp_all
  have "list_all (\<lambda>rw. length rw = cols s) ((grid s)[?i := (grid s ! ?i)[?j := v]])"
    using sh len by (intro list_all_update) (simp_all add: shapeOk_def)
  moreover have "list_all (list_all slotOk) ((grid s)[?i := (grid s ! ?i)[?j := v]])"
  proof (rule list_all_update)
    show "list_all (list_all slotOk) (grid s)" using assms(1) by (simp add: repOk_def)
    then have "list_all slotOk (grid s ! ?i)" using b(3) by (simp add: list_all_length)
    then show "list_all slotOk ((grid s ! ?i)[?j := v])"
      using assms(3) by (intro list_all_update)
  qed
  ultimately have "repOk ?s'" using assms(1) by (simp add: repOk_def shapeOk_def o)
  then show ?thesis using eq by (intro that[of ?s']) simp_all
qed

lemma turnDown_ok:
  assumes "repOk (fst sf)" "within q (fst sf)"
  obtains sf' where "turnDown q sf = Inr sf'" "repOk (fst sf')"
    "rows (fst sf') = rows (fst sf)" "cols (fst sf') = cols (fst sf)"
    "firstSelection (fst sf') = firstSelection (fst sf)" "pending (fst sf') = pending (fst sf)"
    "waitQueues (fst sf') = waitQueues (fst sf)" "watchers (fst sf') = watchers (fst sf)"
    "jobs (fst sf') = jobs (fst sf)"
proof -
  have sh: "shapeOk (fst sf)" using assms(1) by (simp add: repOk_def)
  let ?cell = "grid (fst sf) ! nat (pos_r q) ! nat (pos_c q)"
  have g: "getCell (pos_r q) (pos_c q) (fst sf) = Inr ?cell" by (rule getCell_within[OF sh assms(2)])
  show ?thesis
  proof (cases "\<exists>sl. ?cell = Some sl \<and> faceUp sl \<and> controller sl = None")
    case True
    then obtain sl where sl: "?cell = Some sl" "faceUp sl" "controller sl = None" by blast
    let ?s' = "modifySlot q (\<lambda>sl. sl\<lparr>faceUp := False\<rparr>) (fst sf)"
    have "turnDown q sf = Inr (?s', True)" using g sl by (simp add: turnDown_def)
    moreover have "repOk ?s'"
      using assms(1) sl by (intro repOk_modifySlot) (auto simp: slotOk_def)
    ultimately show ?thesis by (intro that[of "(?s', True)"]) simp_all
  next
    case False
    then have "turnDown q sf = Inr sf"
      using g by (auto simp: turnDown_def split: option.splits)
    then show ?thesis using assms(1) by (intro that[of sf]) simp_all
  qed
qed

lemma settle_ok:
  assumes "repOk s"
  obtains s1 where "settleBeforeNewFirstMove p s = (Inr (), s1)" "repOk s1"
    "rows s1 = rows s" "cols s1 = cols s" "firstSelection s1 = firstSelection s"
proof (cases "pendingOf p s")
  case NoOutcome
  then show ?thesis using assms by (intro that[of s]) (simp_all add: settleBeforeNewFirstMove_def)
next
  case (Matched a b)
  then have w: "within a s" "within b s" using pending_within[OF assms, of p a b] by simp_all
  have n: "slotOk None" by (simp add: slotOk_def)
  obtain s1 where s1: "setCell (pos_r a) (pos_c a) None s = Inr s1" "repOk s1"
    "rows s1 = rows s" "cols s1 = cols s" "firstSelection s1 = firstSelection s"
    "pending s1 = pending s" "waitQueues s1 = waitQueues s" "watchers s1 = watchers s"
    "jobs s1 = jobs s"
    by (rule setCell_ok[OF assms w(1) n])
  have "within b s1" using w(2) s1(3,4) by (simp add: within_def)
  then obtain s2 where s2: "setCell (pos_r b) (pos_c b) None s1 = Inr s2" "repOk s2"
    "rows s2 = rows s1" "cols s2 = cols s1" "firstSelection s2 = firstSelection s1"
    "pending s2 = pending s1" "waitQueues s2 = waitQueues s1" "watchers s2 = watchers s1"
    "jobs s2 = jobs s1"
    using n by (rule setCell_ok[OF s1(2)])
  let ?s3 = "clearPending p (notifyChange (wakeNext b (wakeNext a s2)))"
  have r: "repOk ?s3" using s2(2) by (simp add: repOk_clearPending)
  have "settleBeforeNewFirstMove p s = (Inr (), ?s3)"
    using Matched s1(1) s2(1) r by (simp add: settleBeforeNewFirstMove_def checked_def checkRep_def)
  then show ?thesis using r s1 s2 by (intro that[of ?s3]) simp_all
next
  case (Mismatched a b)
  then have w: "within a s" "within b s" using pending_within[OF assms, of p a b] by simp_all
  have a0: "repOk (fst (s, False))" "within a (fst (s, False))" using assms w(1) by simp_all
  obtain sf1 where s1': "turnDown a (s, False) = Inr sf1" "repOk (fst sf1)"
    "rows (fst sf1) = rows (fst (s, False))" "cols (fst sf1) = cols (fst (s, False))"
    "firstSelection (fst sf1) = firstSelection (fst (s, False))"
    "pending (fst sf1) = pending (fst (s, False))"
    "waitQueues (fst sf1) = waitQueues (fst (s, False))" "watchers (fst sf1) = watchers (fst (s, False))"
    "jobs (fst sf1) = jobs (fst (s, False))"
    by (rule turnDown_ok[OF a0])
  note s1 = s1'[simplified]
  have "within b (fst sf1)" using w(2) s1(3,4) by (simp add: within_def)
  then obtain sf2 where s2: "turnDown b sf1 = Inr sf2" "repOk (fst sf2)"
    "rows (fst sf2) = rows (fst sf1)" "cols (fst sf2) = cols (fst sf1)"
    "firstSelection (fst sf2) = firstSelection (fst sf1)"
    "pending (fst sf2) = pending (fst sf1)"
    "waitQueues (fst sf2) = waitQueues (fst sf1)" "watchers (fst sf2) = watchers (fst sf1)"
    "jobs (fst sf2) = jobs (fst sf1)"
    by (rule turnDown_ok[OF s1(2)])
  let ?s3 = "clearPending p (if snd sf2 then notifyChange (fst sf2) else fst sf2)"
  have r: "repOk ?s3" using s2(2) by (simp add: repOk_clearPending)
  have "settleBeforeNewFirstMove p s = (Inr (), ?s3)"
    using Mismatched s1(1) s2(1) r by (simp add: settleBeforeNewFirstMove_def checked_def checkRep_def)
  then show ?thesis using r s1 s2 by (intro that[of ?s3]) simp_all
qed

lemma settle_none: "pendingOf p s = NoOutcome \<Longrightarrow> settleBeforeNewFirstMove p s = (Inr (), s)"
  by (simp add: settleBeforeNewFirstMove_def)

subsection \<open>Evaluating the example boards\<close>

lemmas flip_defs =
  flipFirst_def flipSecond_def flipFirstAsync_def flipSecondAsync_def attemptFirst_def
  settleBeforeNewFirstMove_def relinquishThenThrow_def relinquishFirstOnly_def resolvePair_def
  turnDown_def pendingOf_def queueAt_def

lemmas state_defs =
  slotAt_def within_def getCell_def setCell_def row_def assign_def modifySlot_def
  selectFirst_def unselectFirst_def setPending_def clearPending_def wakeNext_def notifyChange_def
  enqueueAndWait_def watch_def

lemmas rep_defs =
  checked_def checkRep_def repOk_def shapeOk_def slotOk_def outcomeOk_def cardRe_def isSpace_def
  selectionsOk_def

lemmas board_defs =
  board_uu_def board_ab_def board_uu_first_def board_uu_matched_def board_uu_contested_def
  board_uu_waiting_def freshSlot_def

lemma uu_first: "flipFirst (Pos 0 0) ''alice'' board_uu = (Inr (), board_uu_first)"
  by (simp add: flip_defs state_defs rep_defs board_defs)

lemma uu_matched: "flipSecond (Pos 0 1) ''alice'' board_uu_first = (Inr (), board_uu_matched)"
  by (simp add: flip_defs state_defs rep_defs board_defs)

lemma repOk_examples: "repOk board_uu" "repOk board_ab" "repOk board_uu_first" "repOk board_uu_matched"
  by (simp_all add: rep_defs board_defs state_defs)


text \<open>The snapshot of \<open>board_uu_first\<close> as alice and as bob see it.\<close>

lemma snapshot_uu_first:
  "snapshot ''alice'' board_uu_first = Inr (''1x2'' @ [CHR 0x0A] @ ''my u'' @ [CHR 0x0A] @ ''down'' @ [CHR 0x0A])"
  "snapshot ''bob'' board_uu_first = Inr (''1x2'' @ [CHR 0x0A] @ ''up u'' @ [CHR 0x0A] @ ''down'' @ [CHR 0x0A])"
  by (simp_all add: snapshot_def spot_def positions_def state_defs board_defs numeral_2_eq_2)

subsection \<open>A failing first flip\<close>

lemma first_success_checked:
  assumes "repOk s1" "grid s1 ! nat (pos_r pos) ! nat (pos_c pos) = Some slot"
  shows "repOk (modifySlot pos (\<lambda>sl. sl\<lparr>faceUp := True, controller := Some by\<rparr>) s1)"
    and "faceUp slot \<Longrightarrow> repOk (modifySlot pos (\<lambda>sl. sl\<lparr>controller := Some by\<rparr>) s1)"
  using assms by (auto intro!: repOk_modifySlot simp: slotOk_def)

lemma flipFirst_failure:
  assumes "repOk s" "settleBeforeNewFirstMove p s = (Inr (), s1)" "repOk s1"
    and "flipFirst pos p s = (Inl e, s')"
  shows "s' = s1 \<and> e \<in> {OutOfBounds, EmptySpace, Contested}"
proof (cases "within pos s1")
  case False
  then show ?thesis using assms(2,4) by (simp add: flipFirst_def slotAt_def)
next
  case True
  have sh: "shapeOk s1" using assms(3) by (simp add: repOk_def)
  let ?cell = "grid s1 ! nat (pos_r pos) ! nat (pos_c pos)"
  have sl: "slotAt pos s1 = Inr ?cell" by (rule slotAt_within[OF sh True])
  show ?thesis
  proof (cases ?cell)
    case None
    then show ?thesis using assms(2,4) sl by (simp add: flipFirst_def)
  next
    case (Some slot)
    note ok = first_success_checked[OF assms(3) Some, of p]
    show ?thesis using assms(2,4) sl Some ok
      by (auto simp: flipFirst_def checked_def checkRep_def split: if_splits)
  qed
qed

text \<open>
  C4 (as amended). \<^verbatim>\<open>flipFirst\<close> runs the caller's cleanup before it looks at the
  target, so a failing call is not free of effects. On a board that satisfies the
  representation invariant, if \<^verbatim>\<open>flipFirst(pos, p)\<close> fails then it fails with
  \<^verbatim>\<open>OutOfBounds\<close>, \<^verbatim>\<open>EmptySpace\<close> or \<^verbatim>\<open>Contested\<close>, and the board it leaves is
  exactly the board that \<^verbatim>\<open>settleBeforeNewFirstMove(p)\<close> alone leaves: the failing
  look at the target adds nothing. In particular, when \<open>p\<close> has no pending outcome the
  board is exactly as before the call.
\<close>

theorem flipFirst_failure_state:
  assumes "repOk s" and "fst (flipFirst pos p s) = Inl e"
  shows "snd (flipFirst pos p s) = snd (settleBeforeNewFirstMove p s)
    \<and> e \<in> {OutOfBounds, EmptySpace, Contested}
    \<and> (pendingOf p s = NoOutcome \<longrightarrow> snd (flipFirst pos p s) = s)"
proof -
  obtain s1 where s1: "settleBeforeNewFirstMove p s = (Inr (), s1)" "repOk s1"
    "rows s1 = rows s" "cols s1 = cols s" "firstSelection s1 = firstSelection s"
    by (rule settle_ok[OF assms(1)])
  obtain s' where s': "flipFirst pos p s = (Inl e, s')"
    using assms(2) by (cases "flipFirst pos p s") simp
  have "s' = s1 \<and> e \<in> {OutOfBounds, EmptySpace, Contested}"
    by (rule flipFirst_failure[OF assms(1) s1(1,2) s'])
  then show ?thesis using s1(1) s' by (auto simp: settle_none)
qed

text \<open>
  The theorem at a failing call: alice holds the matched pair of \<open>board_uu\<close> and
  flips (0,0) again; the cleanup removes both cards and the flip fails on the empty space.
\<close>

theorem flipFirst_failure_state_witness:
  "repOk board_uu_matched
   \<and> fst (flipFirst (Pos 0 0) ''alice'' board_uu_matched) = Inl EmptySpace
   \<and> snd (flipFirst (Pos 0 0) ''alice'' board_uu_matched)
       = snd (settleBeforeNewFirstMove ''alice'' board_uu_matched)
   \<and> grid (snd (flipFirst (Pos 0 0) ''alice'' board_uu_matched)) = [[None, None]]"
proof -
  have r: "repOk board_uu_matched" by (simp add: rep_defs board_defs state_defs)
  have f: "fst (flipFirst (Pos 0 0) ''alice'' board_uu_matched) = Inl EmptySpace"
    by (simp add: flip_defs state_defs rep_defs board_defs)
  have g: "grid (snd (settleBeforeNewFirstMove ''alice'' board_uu_matched)) = [[None, None]]"
    by (simp add: flip_defs state_defs rep_defs board_defs)
  show ?thesis using flipFirst_failure_state[OF r f] r f g by simp
qed

text \<open>
  C4 as stated fails: that same call fails, yet the board after it is not the board before
  it (the pair is gone and the pending outcome is consumed).
\<close>

theorem flipFirst_failure_changes_board:
  "fst (flipFirst (Pos 0 0) ''alice'' board_uu_matched) = Inl EmptySpace
   \<and> snd (flipFirst (Pos 0 0) ''alice'' board_uu_matched) \<noteq> board_uu_matched
   \<and> grid board_uu_matched \<noteq> grid (snd (flipFirst (Pos 0 0) ''alice'' board_uu_matched))
   \<and> pending board_uu_matched \<noteq> pending (snd (flipFirst (Pos 0 0) ''alice'' board_uu_matched))"
  by (simp add: flip_defs state_defs rep_defs board_defs)

text \<open>
  The waiting variant: an attempt that throws leaves the board as it found it, so a failing
  \<^verbatim>\<open>flipFirstAsync\<close> leaves what the cleanup left (on its first attempt) or what it found
  when it was resumed.
\<close>

lemma attemptFirst_failure:
  assumes "repOk s" "fst (attemptFirst pos p s) = Inl e"
  shows "snd (attemptFirst pos p s) = s \<and> e \<in> {OutOfBounds, EmptySpace}"
proof (cases "within pos s")
  case False
  then show ?thesis using assms(2) by (simp add: attemptFirst_def slotAt_def)
next
  case True
  have sh: "shapeOk s" using assms(1) by (simp add: repOk_def)
  let ?cell = "grid s ! nat (pos_r pos) ! nat (pos_c pos)"
  have sl: "slotAt pos s = Inr ?cell" by (rule slotAt_within[OF sh True])
  show ?thesis
  proof (cases ?cell)
    case None
    then show ?thesis using assms(2) sl by (simp add: attemptFirst_def)
  next
    case (Some slot)
    note ok = first_success_checked[OF assms(1) Some, of p]
    show ?thesis using assms(2) sl Some ok
      by (auto simp: attemptFirst_def checkRep_def Let_def split: if_splits)
  qed
qed

lemma flipFirstAsync_failure_state:
  assumes "repOk s" "fst (flipFirstAsync pos p s) = Inl e"
  shows "snd (flipFirstAsync pos p s) = snd (settleBeforeNewFirstMove p s) \<and> e \<in> {OutOfBounds, EmptySpace}"
proof -
  obtain s1 where s1: "settleBeforeNewFirstMove p s = (Inr (), s1)" "repOk s1"
    "rows s1 = rows s" "cols s1 = cols s" "firstSelection s1 = firstSelection s"
    by (rule settle_ok[OF assms(1)])
  have "fst (attemptFirst pos p s1) = Inl e" using assms(2) s1(1) by (simp add: flipFirstAsync_def)
  then show ?thesis using attemptFirst_failure[OF s1(2)] s1(1) by (simp add: flipFirstAsync_def)
qed

subsection \<open>Positions outside the grid\<close>

lemma selection_within:
  "selectionsOk s \<Longrightarrow> map_of (firstSelection s) p = Some first \<Longrightarrow> within first s"
  by (auto simp: selectionsOk_def list_all_iff dest!: map_of_SomeD)

text \<open>What \<^verbatim>\<open>relinquishFirstOnly\<close> leaves when the player has a first selection.\<close>

lemma relinquish_ok:
  assumes "repOk s" "within first s" "map_of (firstSelection s) p = Some first"
  shows "relinquishFirstOnly p s =
     (Inr (), unselectFirst p
        (case grid s ! nat (pos_r first) ! nat (pos_c first) of
           None \<Rightarrow> s
         | Some s1 \<Rightarrow> wakeNext first (modifySlot first (\<lambda>sl. sl\<lparr>controller := None\<rparr>) s)))"
proof -
  have sh: "shapeOk s" using assms(1) by (simp add: repOk_def)
  have sl: "slotAt first s = Inr (grid s ! nat (pos_r first) ! nat (pos_c first))"
    by (rule slotAt_within[OF sh assms(2)])
  have "repOk (modifySlot first (\<lambda>sl. sl\<lparr>controller := None\<rparr>) s)"
    using assms(1) by (intro repOk_modifySlot) (auto simp: slotOk_def)
  then show ?thesis using assms(1,3) sl
    by (simp add: relinquishFirstOnly_def checked_def checkRep_def split: option.splits)
qed

text \<open>
  C3 (as amended). For a position outside the grid, on a board that satisfies the
  representation invariant and whose recorded first selections are inside the grid:
  \<^verbatim>\<open>flipFirst\<close> fails with \<^verbatim>\<open>OutOfBounds\<close>; \<^verbatim>\<open>flipSecond\<close> never reports
  \<^verbatim>\<open>OutOfBounds\<close> for it, but fails with \<^verbatim>\<open>NoFirst\<close> when the player has no first
  selection and otherwise treats the position as an empty space and fails with
  \<^verbatim>\<open>EmptyTarget\<close> (rule 2-A); either way the player has no first selection afterwards.
\<close>

theorem out_of_bounds_flips:
  assumes "repOk s" "selectionsOk s" "\<not> within pos s"
  shows "fst (flipFirst pos p s) = Inl OutOfBounds
    \<and> fst (flipSecond pos p s) =
        (case map_of (firstSelection s) p of None \<Rightarrow> Inl NoFirst | Some first \<Rightarrow> Inl EmptyTarget)
    \<and> map_of (firstSelection (snd (flipSecond pos p s))) p = None"
proof -
  obtain s1 where s1: "settleBeforeNewFirstMove p s = (Inr (), s1)" "repOk s1"
    "rows s1 = rows s" "cols s1 = cols s" "firstSelection s1 = firstSelection s"
    by (rule settle_ok[OF assms(1)])
  have "\<not> within pos s1" using assms(3) s1(3,4) by (simp add: within_def)
  then have a: "fst (flipFirst pos p s) = Inl OutOfBounds"
    using s1(1) by (simp add: flipFirst_def slotAt_def)
  have b: "fst (flipSecond pos p s) = Inl EmptyTarget
      \<and> map_of (firstSelection (snd (flipSecond pos p s))) p = None"
    if f: "map_of (firstSelection s) p = Some first" for first
  proof -
    have w: "within first s" by (rule selection_within[OF assms(2) f])
    show ?thesis
      using assms(3) f relinquish_ok[OF assms(1) w f]
      by (simp add: flipSecond_def relinquishThenThrow_def unselectFirst_def delete_conv')
  qed
  have c: "flipSecond pos p s = (Inl NoFirst, s)" if "map_of (firstSelection s) p = None"
    using that by (simp add: flipSecond_def)
  show ?thesis using a b c by (cases "map_of (firstSelection s) p") simp_all
qed

text \<open>The theorem on \<open>board_uu_first\<close>, for alice (who has a first card) and bob (who has none).\<close>

theorem out_of_bounds_flips_witness:
  "repOk board_uu_first \<and> selectionsOk board_uu_first \<and> \<not> within (Pos (- 1) 0) board_uu_first
   \<and> fst (flipFirst (Pos (- 1) 0) ''alice'' board_uu_first) = Inl OutOfBounds
   \<and> fst (flipSecond (Pos (- 1) 0) ''alice'' board_uu_first) = Inl EmptyTarget
   \<and> fst (flipSecond (Pos (- 1) 0) ''bob'' board_uu_first) = Inl NoFirst
   \<and> map_of (firstSelection (snd (flipSecond (Pos (- 1) 0) ''alice'' board_uu_first))) ''alice'' = None"
proof -
  have h: "repOk board_uu_first" "selectionsOk board_uu_first" "\<not> within (Pos (- 1) 0) board_uu_first"
    by (simp_all add: rep_defs board_defs state_defs)
  show ?thesis
    using out_of_bounds_flips[OF h, of "''alice''"] out_of_bounds_flips[OF h, of "''bob''"] h
    by (simp add: board_defs)
qed

text \<open>
  C3 as stated fails for \<^verbatim>\<open>flipSecond\<close>: with alice's first card at (0,0), her second
  flip at (-1,0) fails with \<^verbatim>\<open>EmptyTarget\<close>, not with \<^verbatim>\<open>OutOfBounds\<close>.
\<close>

theorem flipSecond_out_of_bounds_is_empty_target:
  "\<not> within (Pos (- 1) 0) board_uu_first
   \<and> fst (flipSecond (Pos (- 1) 0) ''alice'' board_uu_first) = Inl EmptyTarget
   \<and> fst (flipSecond (Pos (- 1) 0) ''alice'' board_uu_first) \<noteq> Inl OutOfBounds"
  by (simp add: flip_defs state_defs rep_defs board_defs)

subsection \<open>A contested second card\<close>

lemma uu_contested_run:
  "snd (flipFirstAsync (Pos 0 1) ''dave'' (snd (flipFirstAsync (Pos 0 1) ''carol''
      (snd (flipFirst (Pos 0 1) ''bob'' board_uu_first))))) = board_uu_contested"
  by (simp add: flip_defs state_defs rep_defs board_defs) 

lemma uu_contested_suspends:
  "fst (flipFirstAsync (Pos 0 1) ''carol'' (snd (flipFirst (Pos 0 1) ''bob'' board_uu_first)))
     = Inr Suspended"
  by (simp add: flip_defs state_defs rep_defs board_defs)






text \<open>
  When the card recorded as first selection is no longer on the board there is nothing to
  release and nobody to wake; the call still fails at once with \<^verbatim>\<open>SecondContested\<close>.
\<close>

lemma flipSecond_contested_first_gone:
  assumes "repOk s"
    and "map_of (firstSelection s) p = Some first" "within first s"
    and "grid s ! nat (pos_r first) ! nat (pos_c first) = None"
    and "within pos s" "grid s ! nat (pos_r pos) ! nat (pos_c pos) = Some s2"
    and "faceUp s2" "controller s2 \<noteq> None"
  shows "flipSecond pos p s = (Inl SecondContested, unselectFirst p s)"
proof -
  have sh: "shapeOk s" using assms(1) by (simp add: repOk_def)
  have g: "getCell (pos_r pos) (pos_c pos) s = Inr (Some s2)"
    using getCell_within[OF sh assms(5)] assms(6) by simp
  have r: "relinquishFirstOnly p s = (Inr (), unselectFirst p s)"
    using relinquish_ok[OF assms(1,3,2)] assms(4) by simp
  show ?thesis
    using assms(2,5,7,8) g r by (simp add: flipSecond_def relinquishThenThrow_def)
qed

text \<open>Whatever the board and the arguments, the second flip settles in the call itself.\<close>

lemma flipSecondAsync_never_suspends: "fst (flipSecondAsync pos p s) \<noteq> Inr Suspended"
  by (cases "flipSecond pos p s"; cases "fst (flipSecond pos p s)") (simp_all add: flipSecondAsync_def)

subsection \<open>Removal of a matched pair with several waiters\<close>

lemma uu_waiting_run:
  "snd (flipFirstAsync (Pos 0 0) ''carol'' (snd (flipFirstAsync (Pos 0 0) ''bob'' board_uu_matched)))
     = board_uu_waiting"
  "fst (flipFirstAsync (Pos 0 0) ''bob'' board_uu_matched) = Inr Suspended"
  by (simp_all add: flip_defs state_defs rep_defs board_defs)

text \<open>
  C1, evaluated. Alice holds the matched pair (0,0), (0,1); bob and carol wait on (0,0).
  Alice's cleanup removes both cards and wakes bob, whose retry fails with
  \<^verbatim>\<open>EmptySpace\<close>. Carol is not woken: \<^verbatim>\<open>wakeNext\<close> shifts one waiter only, and
  she stays in the queue of a position that is now empty.
\<close>

theorem removal_strands_second_waiter:
  "pendingOf ''alice'' board_uu_waiting = Matched (Pos 0 0) (Pos 0 1)
   \<and> queueAt (Pos 0 0) board_uu_waiting = [''bob'', ''carol'']
   \<and> fst (settleBeforeNewFirstMove ''alice'' board_uu_waiting) = Inr ()
   \<and> grid (snd (settleBeforeNewFirstMove ''alice'' board_uu_waiting)) = [[None, None]]
   \<and> jobs (snd (settleBeforeNewFirstMove ''alice'' board_uu_waiting)) = [RetryFirst (Pos 0 0) ''bob'']
   \<and> queueAt (Pos 0 0) (snd (settleBeforeNewFirstMove ''alice'' board_uu_waiting)) = [''carol'']
   \<and> fst (attemptFirst (Pos 0 0) ''bob''
         ((snd (settleBeforeNewFirstMove ''alice'' board_uu_waiting))\<lparr>jobs := []\<rparr>)) = Inl EmptySpace
   \<and> jobs (runJob (snd (settleBeforeNewFirstMove ''alice'' board_uu_waiting))) = []
   \<and> queueAt (Pos 0 0) (runJob (snd (settleBeforeNewFirstMove ''alice'' board_uu_waiting))) = [''carol'']"
  by (simp add: flip_defs state_defs rep_defs board_defs runJob_def)


subsection \<open>The transformer and the watchers\<close>

lemmas map_defs =
  map_board_def mapInterleaved_def mapFinish_def mapCards_def mapCardsInterleaved_def
  mapCardsFinish_def entriesOf_def positions_def positionsOf_def results_def invocations_def
  invalidOut_def trim_def

text \<open>
  C2, evaluated. Bob watches \<open>board_uu\<close>; \<^verbatim>\<open>map\<close> with the transform
  \<^verbatim>\<open>card => "T_" + card\<close> returns normally and rewrites both labels, and bob is still
  among the watchers: nothing was broadcast.
\<close>

theorem map_rewrites_without_broadcast:
  "watchers (watch ''bob'' board_uu) = [''bob'']
   \<and> fst (map_board (\<lambda>card. ''T_'' @ card) (watch ''bob'' board_uu)) = Inr ()
   \<and> grid (snd (map_board (\<lambda>card. ''T_'' @ card) (watch ''bob'' board_uu)))
       = [[freshSlot ''T_u'', freshSlot ''T_u'']]
   \<and> watchers (snd (map_board (\<lambda>card. ''T_'' @ card) (watch ''bob'' board_uu))) = [''bob'']
   \<and> jobs (snd (map_board (\<lambda>card. ''T_'' @ card) (watch ''bob'' board_uu))) = []"
  by (simp add: map_defs state_defs rep_defs board_defs numeral_2_eq_2)

text \<open>The sibling \<^verbatim>\<open>mapCards\<close>, on the same board and transform, does broadcast.\<close>

lemma mapCards_rewrites_with_broadcast:
  "fst (mapCards ''bob'' (\<lambda>card. ''T_'' @ card) (watch ''bob'' board_uu)) = Inr ()
   \<and> grid (snd (mapCards ''bob'' (\<lambda>card. ''T_'' @ card) (watch ''bob'' board_uu)))
       = [[freshSlot ''T_u'', freshSlot ''T_u'']]
   \<and> watchers (snd (mapCards ''bob'' (\<lambda>card. ''T_'' @ card) (watch ''bob'' board_uu))) = []
   \<and> jobs (snd (mapCards ''bob'' (\<lambda>card. ''T_'' @ card) (watch ''bob'' board_uu))) = [WatchDone ''bob'']"
  by (simp add: map_defs state_defs rep_defs board_defs numeral_2_eq_2)

text \<open>No call of \<^verbatim>\<open>map\<close> wakes a watcher, whatever it rewrites.\<close>

lemma map_never_broadcasts:
  "watchers (snd (map_board transform s)) = watchers s \<and> jobs (snd (map_board transform s)) = jobs s"
proof -
  have "unlabelled (snd (map_board transform s)) = unlabelled s"
    by (simp add: map_board_def mapInterleaved_def unlabelled_mapFinish split: sum.splits)
  then show ?thesis by (simp add: unlabelled_def)
qed

subsection \<open>Grouping the cells by label\<close>

lemma set_positions: "set (positions s) = {(i, j). i < rows s \<and> j < cols s}"
  by (auto simp: positions_def)

text \<open>The grouping: what \<open>groupCells\<close> keeps true of the groups built so far.\<close>

lemma groupCells_invariant:
  assumes "shapeOk s"
    and "\<forall>(i, j) \<in> set ps. i < rows s \<and> j < cols s"
    and "distinct (map fst acc)"
    and "\<forall>orig qs q. map_of acc orig = Some qs \<and> q \<in> set qs \<longrightarrow>
           (\<exists>i j sl. q = Pos (int i) (int j) \<and> (i, j) \<in> D \<and> grid s ! i ! j = Some sl \<and> label sl = orig)"
    and "\<forall>(i, j) \<in> D. \<forall>sl. grid s ! i ! j = Some sl \<longrightarrow>
           (\<exists>qs. map_of acc (label sl) = Some qs \<and> Pos (int i) (int j) \<in> set qs)"
  shows "\<exists>es. groupCells s ps acc = Inr es \<and> distinct (map fst es)
    \<and> (\<forall>orig qs q. map_of es orig = Some qs \<and> q \<in> set qs \<longrightarrow>
           (\<exists>i j sl. q = Pos (int i) (int j) \<and> (i, j) \<in> D \<union> set ps \<and> grid s ! i ! j = Some sl \<and> label sl = orig))
    \<and> (\<forall>(i, j) \<in> D \<union> set ps. \<forall>sl. grid s ! i ! j = Some sl \<longrightarrow>
           (\<exists>qs. map_of es (label sl) = Some qs \<and> Pos (int i) (int j) \<in> set qs))"
  using assms
proof (induction ps arbitrary: acc D)
  case Nil
  then show ?case by simp
next
  case (Cons a ps)
  obtain i j where a: "a = (i, j)" by (cases a)
  have ij: "i < rows s" "j < cols s" using Cons.prems(2) a by auto
  have g: "getCell (int i) (int j) s = Inr (grid s ! i ! j)" by (rule getCell_in[OF Cons.prems(1) ij])
  have rest: "\<forall>(i, j) \<in> set ps. i < rows s \<and> j < cols s" using Cons.prems(2) by auto
  show ?case
  proof (cases "grid s ! i ! j")
    case None
    have 4: "\<forall>orig qs q. map_of acc orig = Some qs \<and> q \<in> set qs \<longrightarrow>
           (\<exists>i' j' sl. q = Pos (int i') (int j') \<and> (i', j') \<in> insert (i, j) D \<and> grid s ! i' ! j' = Some sl \<and> label sl = orig)"
      using Cons.prems(4) by blast
    have 5: "\<forall>(i', j') \<in> insert (i, j) D. \<forall>sl. grid s ! i' ! j' = Some sl \<longrightarrow>
           (\<exists>qs. map_of acc (label sl) = Some qs \<and> Pos (int i') (int j') \<in> set qs)"
      using Cons.prems(5) None by auto
    show ?thesis
      using Cons.IH[OF Cons.prems(1) rest Cons.prems(3) 4 5] a g None by simp
  next
    case (Some cell)
    let ?l = "label cell"
    let ?acc = "AList.update ?l (positionsOf ?l acc @ [Pos (int i) (int j)]) acc"
    have m: "map_of ?acc = (map_of acc)(?l \<mapsto> positionsOf ?l acc @ [Pos (int i) (int j)])"
      by (rule update_conv')
    have 3: "distinct (map fst ?acc)" using Cons.prems(3) by (rule distinct_update)
    have 4: "\<forall>orig qs q. map_of ?acc orig = Some qs \<and> q \<in> set qs \<longrightarrow>
           (\<exists>i' j' sl. q = Pos (int i') (int j') \<and> (i', j') \<in> insert (i, j) D \<and> grid s ! i' ! j' = Some sl \<and> label sl = orig)"
    proof (intro allI impI)
      fix orig qs q
      assume h: "map_of ?acc orig = Some qs \<and> q \<in> set qs"
      show "\<exists>i' j' sl. q = Pos (int i') (int j') \<and> (i', j') \<in> insert (i, j) D \<and> grid s ! i' ! j' = Some sl \<and> label sl = orig"
      proof (cases "orig = ?l \<and> q = Pos (int i) (int j)")
        case True
        then show ?thesis using Some by blast
      next
        case False
        then have "\<exists>qs0. map_of acc orig = Some qs0 \<and> q \<in> set qs0"
          using h unfolding m by (auto simp: positionsOf_def split: if_splits option.splits)
        then show ?thesis using Cons.prems(4) by blast
      qed
    qed
    have 5: "\<forall>(i', j') \<in> insert (i, j) D. \<forall>sl. grid s ! i' ! j' = Some sl \<longrightarrow>
           (\<exists>qs. map_of ?acc (label sl) = Some qs \<and> Pos (int i') (int j') \<in> set qs)"
    proof (intro ballI allI impI, clarify)
      fix i' j' sl
      assume h: "(i', j') \<in> insert (i, j) D" "grid s ! i' ! j' = Some sl"
      show "\<exists>qs. map_of ?acc (label sl) = Some qs \<and> Pos (int i') (int j') \<in> set qs"
      proof (cases "(i', j') = (i, j)")
        case True
        then show ?thesis using h(2) Some unfolding m by simp
      next
        case False
        then have "(i', j') \<in> D" using h(1) by auto
        then obtain qs0 where "map_of acc (label sl) = Some qs0" "Pos (int i') (int j') \<in> set qs0"
          using Cons.prems(5) h(2) by blast
        then show ?thesis unfolding m by (auto simp: positionsOf_def)
      qed
    qed
    have "insert (i, j) D \<union> set ps = D \<union> set (a # ps)" using a by auto
    then show ?thesis
      using Cons.IH[OF Cons.prems(1) rest 3 4 5] a g Some by simp
  qed
qed

lemma entriesOf_groups:
  assumes "shapeOk s"
  shows "\<exists>es. entriesOf s = Inr es \<and> distinct (map fst es)
    \<and> (\<forall>orig qs q. (orig, qs) \<in> set es \<and> q \<in> set qs \<longrightarrow>
           (\<exists>i j sl. q = Pos (int i) (int j) \<and> i < rows s \<and> j < cols s \<and> grid s ! i ! j = Some sl \<and> label sl = orig))
    \<and> (\<forall>i j sl. i < rows s \<and> j < cols s \<and> grid s ! i ! j = Some sl \<longrightarrow>
           (\<exists>qs. (label sl, qs) \<in> set es \<and> Pos (int i) (int j) \<in> set qs))"
proof -
  let ?A = "\<lambda>es. \<forall>orig qs q. map_of es orig = Some qs \<and> q \<in> set qs \<longrightarrow>
           (\<exists>i j sl. q = Pos (int i) (int j) \<and> (i, j) \<in> {} \<union> set (positions s) \<and> grid s ! i ! j = Some sl \<and> label sl = orig)"
  let ?B = "\<lambda>es. \<forall>(i, j) \<in> {} \<union> set (positions s). \<forall>sl. grid s ! i ! j = Some sl \<longrightarrow>
           (\<exists>qs. map_of es (label sl) = Some qs \<and> Pos (int i) (int j) \<in> set qs)"
  have "\<exists>es. groupCells s (positions s) [] = Inr es \<and> distinct (map fst es) \<and> ?A es \<and> ?B es"
    by (rule groupCells_invariant[OF assms]) (simp_all add: set_positions)
  then obtain es where es: "groupCells s (positions s) [] = Inr es \<and> distinct (map fst es) \<and> ?A es \<and> ?B es" ..
  note e2 = es[THEN conjunct2, THEN conjunct1]
    and e3 = es[THEN conjunct2, THEN conjunct2, THEN conjunct1]
    and e4 = es[THEN conjunct2, THEN conjunct2, THEN conjunct2]
  have e1: "entriesOf s = Inr es" using es[THEN conjunct1] by (simp add: entriesOf_def)
  have mem: "map_of es orig = Some qs \<longleftrightarrow> (orig, qs) \<in> set es" for orig qs
    using e2 by simp
  have c3: "\<exists>i j sl. q = Pos (int i) (int j) \<and> i < rows s \<and> j < cols s \<and> grid s ! i ! j = Some sl \<and> label sl = orig"
    if "(orig, qs) \<in> set es \<and> q \<in> set qs" for orig qs q
  proof -
    have "map_of es orig = Some qs \<and> q \<in> set qs" using that mem by simp
    then have "\<exists>i j sl. q = Pos (int i) (int j) \<and> (i, j) \<in> {} \<union> set (positions s) \<and> grid s ! i ! j = Some sl \<and> label sl = orig"
      by (rule e3[rule_format])
    then show ?thesis by (simp add: set_positions)
  qed
  have c4: "\<exists>qs. (label sl, qs) \<in> set es \<and> Pos (int i) (int j) \<in> set qs"
    if "i < rows s \<and> j < cols s \<and> grid s ! i ! j = Some sl" for i j sl
  proof -
    have "(i, j) \<in> {} \<union> set (positions s)" using that by (simp add: set_positions)
    then have "\<forall>sl. grid s ! i ! j = Some sl \<longrightarrow>
           (\<exists>qs. map_of es (label sl) = Some qs \<and> Pos (int i) (int j) \<in> set qs)"
      using e4 by (simp only: Ball_def) (simp add: case_prod_beta)
    then have "\<exists>qs. map_of es (label sl) = Some qs \<and> Pos (int i) (int j) \<in> set qs"
      using that by simp
    then show ?thesis by (simp add: mem)
  qed
  show ?thesis using e1 e2 c3 c4 by (intro exI[of _ es] conjI allI impI)
qed

subsection \<open>The commit loops, cell by cell\<close>

lemma Pos_eq_iff:
  "within q s \<Longrightarrow> (Pos (int i) (int j) = q) = (i = nat (pos_r q) \<and> j = nat (pos_c q))"
  by (cases q) (auto simp: within_def)

lemma relabel_idem:
  "map_option (\<lambda>sl. sl\<lparr>label := v\<rparr>) (map_option (\<lambda>sl. sl\<lparr>label := v\<rparr>) x) = map_option (\<lambda>sl. sl\<lparr>label := v\<rparr>) x"
  by (cases x) simp_all

lemma shape_lengths:
  "shapeOk s \<Longrightarrow> i < rows s \<Longrightarrow> i < length (grid s) \<and> length (grid s ! i) = cols s"
  by (simp add: shapeOk_def list_all_length)

lemma commitPositions_cells:
  assumes "shapeOk s" "\<forall>q \<in> set qs. within q s"
  shows "\<exists>s'. commitPositions v qs s = (Inr (), s') \<and> shapeOk s' \<and> rows s' = rows s \<and> cols s' = cols s
    \<and> (\<forall>i j. i < rows s \<and> j < cols s \<longrightarrow>
          grid s' ! i ! j = (if Pos (int i) (int j) \<in> set qs
                             then map_option (\<lambda>sl. sl\<lparr>label := v\<rparr>) (grid s ! i ! j)
                             else grid s ! i ! j))"
  using assms
proof (induction qs arbitrary: s)
  case Nil
  then show ?case by simp
next
  case (Cons q qs)
  have w: "within q s" using Cons.prems(2) by simp
  have g: "getCell (pos_r q) (pos_c q) s = Inr (grid s ! nat (pos_r q) ! nat (pos_c q))"
    by (rule getCell_within[OF Cons.prems(1) w])
  have rest: "\<forall>q \<in> set qs. within q s" using Cons.prems(2) by simp
  show ?case
  proof (cases "grid s ! nat (pos_r q) ! nat (pos_c q)")
    case None
    obtain s' where s': "commitPositions v qs s = (Inr (), s') \<and> shapeOk s' \<and> rows s' = rows s \<and> cols s' = cols s
      \<and> (\<forall>i j. i < rows s \<and> j < cols s \<longrightarrow>
          grid s' ! i ! j = (if Pos (int i) (int j) \<in> set qs
                             then map_option (\<lambda>sl. sl\<lparr>label := v\<rparr>) (grid s ! i ! j)
                             else grid s ! i ! j))"
      using Cons.IH[OF Cons.prems(1) rest] ..
    have "grid s' ! i ! j = (if Pos (int i) (int j) \<in> set (q # qs)
                             then map_option (\<lambda>sl. sl\<lparr>label := v\<rparr>) (grid s ! i ! j)
                             else grid s ! i ! j)" if "i < rows s \<and> j < cols s" for i j
      using s' that None Pos_eq_iff[OF w, of i j] by auto
    then show ?thesis using s' g None by auto
  next
    case (Some cell)
    let ?s1 = "modifySlot q (\<lambda>sl. sl\<lparr>label := v\<rparr>) s"
    have sh1: "shapeOk ?s1" using Cons.prems(1) by simp
    have rest1: "\<forall>q \<in> set qs. within q ?s1" using rest by simp
    obtain s' where s': "commitPositions v qs ?s1 = (Inr (), s') \<and> shapeOk s' \<and> rows s' = rows ?s1 \<and> cols s' = cols ?s1
      \<and> (\<forall>i j. i < rows ?s1 \<and> j < cols ?s1 \<longrightarrow>
          grid s' ! i ! j = (if Pos (int i) (int j) \<in> set qs
                             then map_option (\<lambda>sl. sl\<lparr>label := v\<rparr>) (grid ?s1 ! i ! j)
                             else grid ?s1 ! i ! j))"
      using Cons.IH[OF sh1 rest1] ..
    have "grid s' ! i ! j = (if Pos (int i) (int j) \<in> set (q # qs)
                             then map_option (\<lambda>sl. sl\<lparr>label := v\<rparr>) (grid s ! i ! j)
                             else grid s ! i ! j)" if ij: "i < rows s \<and> j < cols s" for i j
    proof -
      have l: "i < length (grid s)" "j < length (grid s ! i)"
        using shape_lengths[OF Cons.prems(1), of i] ij by simp_all
      have g1: "grid ?s1 ! i ! j = (if Pos (int i) (int j) = q
            then map_option (\<lambda>sl. sl\<lparr>label := v\<rparr>) (grid s ! i ! j) else grid s ! i ! j)"
        using grid_modifySlot[OF l, of q] Pos_eq_iff[OF w, of i j] by simp
      have "grid s' ! i ! j = (if Pos (int i) (int j) \<in> set qs
                             then map_option (\<lambda>sl. sl\<lparr>label := v\<rparr>) (grid ?s1 ! i ! j)
                             else grid ?s1 ! i ! j)"
        using s' ij by simp
      then show ?thesis unfolding g1 by (auto simp: relabel_idem)
    qed
    then show ?thesis using s' g Some by auto
  qed
qed

lemma within_cong: "rows s' = rows s \<Longrightarrow> cols s' = cols s \<Longrightarrow> within q s' = within q s"
  by (simp add: within_def)

lemma relabel_over:
  "map_option (\<lambda>sl. sl\<lparr>label := v\<rparr>) (map_option (\<lambda>sl. sl\<lparr>label := w\<rparr>) x) = map_option (\<lambda>sl. sl\<lparr>label := v\<rparr>) x"
  by (cases x) simp_all

lemma commitGroups_cells:
  assumes "shapeOk s"
    and "\<forall>(orig, qs) \<in> set es. (\<forall>q \<in> set qs. within q s \<and> lab0 q = orig) \<and> map_of m orig = Some (t orig)"
  shows "\<exists>s'. commitGroups m es s = (Inr (), s') \<and> shapeOk s' \<and> rows s' = rows s \<and> cols s' = cols s
    \<and> (\<forall>i j. i < rows s \<and> j < cols s \<longrightarrow>
          grid s' ! i ! j = (if Pos (int i) (int j) \<in> \<Union> (set ` snd ` set es)
                             then map_option (\<lambda>sl. sl\<lparr>label := t (lab0 (Pos (int i) (int j)))\<rparr>) (grid s ! i ! j)
                             else grid s ! i ! j))"
  using assms
proof (induction es arbitrary: s)
  case Nil
  then show ?case by simp
next
  case (Cons a es)
  obtain orig qs where a: "a = (orig, qs)" by (cases a)
  have qs: "\<forall>q \<in> set qs. within q s" and lab: "\<forall>q \<in> set qs. lab0 q = orig"
    and m: "map_of m orig = Some (t orig)"
    using Cons.prems(2) a by auto
  obtain s1 where s1: "commitPositions (t orig) qs s = (Inr (), s1) \<and> shapeOk s1 \<and> rows s1 = rows s \<and> cols s1 = cols s
    \<and> (\<forall>i j. i < rows s \<and> j < cols s \<longrightarrow>
          grid s1 ! i ! j = (if Pos (int i) (int j) \<in> set qs
                             then map_option (\<lambda>sl. sl\<lparr>label := t orig\<rparr>) (grid s ! i ! j)
                             else grid s ! i ! j))"
    using commitPositions_cells[OF Cons.prems(1) qs, of "t orig"] ..
  have w1: "within q s1 = within q s" for q using s1 by (intro within_cong) simp_all
  have rest: "\<forall>(orig, qs) \<in> set es. (\<forall>q \<in> set qs. within q s1 \<and> lab0 q = orig) \<and> map_of m orig = Some (t orig)"
    using Cons.prems(2) by (auto simp: w1)
  have sh1: "shapeOk s1" using s1 by simp
  obtain s' where s': "commitGroups m es s1 = (Inr (), s') \<and> shapeOk s' \<and> rows s' = rows s1 \<and> cols s' = cols s1
    \<and> (\<forall>i j. i < rows s1 \<and> j < cols s1 \<longrightarrow>
          grid s' ! i ! j = (if Pos (int i) (int j) \<in> \<Union> (set ` snd ` set es)
                             then map_option (\<lambda>sl. sl\<lparr>label := t (lab0 (Pos (int i) (int j)))\<rparr>) (grid s1 ! i ! j)
                             else grid s1 ! i ! j))"
    using Cons.IH[OF sh1 rest] ..
  have cells: "grid s' ! i ! j = (if Pos (int i) (int j) \<in> \<Union> (set ` snd ` set (a # es))
                             then map_option (\<lambda>sl. sl\<lparr>label := t (lab0 (Pos (int i) (int j)))\<rparr>) (grid s ! i ! j)
                             else grid s ! i ! j)" if ij: "i < rows s \<and> j < cols s" for i j
  proof -
    let ?P = "Pos (int i) (int j)"
    have c1: "grid s1 ! i ! j = (if ?P \<in> set qs
                             then map_option (\<lambda>sl. sl\<lparr>label := t orig\<rparr>) (grid s ! i ! j)
                             else grid s ! i ! j)"
      using s1 ij by simp
    have c2: "grid s' ! i ! j = (if ?P \<in> \<Union> (set ` snd ` set es)
                             then map_option (\<lambda>sl. sl\<lparr>label := t (lab0 ?P)\<rparr>) (grid s1 ! i ! j)
                             else grid s1 ! i ! j)"
      using s' s1 ij by simp
    have u: "?P \<in> \<Union> (set ` snd ` set (a # es)) \<longleftrightarrow> ?P \<in> set qs \<or> ?P \<in> \<Union> (set ` snd ` set es)"
      using a by simp
    show ?thesis
    proof (cases "?P \<in> set qs")
      case True
      then have "lab0 ?P = orig" using lab by simp
      then show ?thesis unfolding c2 c1 u using True by (simp add: relabel_over)
    next
      case False
      then show ?thesis unfolding c2 c1 u by simp
    qed
  qed
  have "commitGroups m (a # es) s = (Inr (), s')" using a m s1 s' by simp
  then show ?case using s' s1 cells by (intro exI[of _ s']) simp
qed

lemma map_of_keys: "map_of (map (\<lambda>k. (k, f k)) ks) k = (if k \<in> set ks then Some (f k) else None)"
  by (induction ks) auto

lemma results_cases:
  "results t es =
     (if \<exists>orig \<in> fst ` set es. invalidOut (t orig) then Inl InvalidLabel
      else Inr (map (\<lambda>orig. (orig, t orig)) (map fst es)))"
  by (auto simp: results_def invocations_def list_ex_iff)

lemma no_space_trim: "\<forall>ch \<in> set l. \<not> isSpace ch \<Longrightarrow> trim l = l"
proof -
  assume a: "\<forall>ch \<in> set l. \<not> isSpace ch"
  have d: "dropWhile isSpace xs = xs" if "\<forall>ch \<in> set xs. \<not> isSpace ch" for xs
    using that by (cases xs) simp_all
  have "dropWhile isSpace l = l" using a by (rule d)
  moreover have "dropWhile isSpace (rev l) = rev l" using a by (intro d) simp
  ultimately show ?thesis by (simp add: trim_def)
qed

lemma invalidOut_iff: "invalidOut out \<longleftrightarrow> out = [] \<or> (\<exists>ch \<in> set out. isSpace ch)"
  using no_space_trim[of out] by (auto simp: invalidOut_def list_ex_iff)

lemma valid_cardRe: "\<not> invalidOut out \<Longrightarrow> cardRe out"
  by (simp add: invalidOut_iff cardRe_def list_all_iff)

lemma groupCells_keys:
  assumes "shapeOk s" "\<forall>(i, j) \<in> set ps. i < rows s \<and> j < cols s" "groupCells s ps acc = Inr es"
  shows "fst ` set es = fst ` set acc \<union> {label sl |i j sl. (i, j) \<in> set ps \<and> grid s ! i ! j = Some sl}"
  using assms
proof (induction ps arbitrary: acc)
  case Nil
  then show ?case by simp
next
  case (Cons a ps)
  obtain i j where a: "a = (i, j)" by (cases a)
  have ij: "i < rows s" "j < cols s" using Cons.prems(2) a by auto
  have g: "getCell (int i) (int j) s = Inr (grid s ! i ! j)" by (rule getCell_in[OF Cons.prems(1) ij])
  have rest: "\<forall>(i, j) \<in> set ps. i < rows s \<and> j < cols s" using Cons.prems(2) by auto
  show ?case
  proof (cases "grid s ! i ! j")
    case None
    then have "groupCells s ps acc = Inr es" using Cons.prems(3) a g by simp
    then have "fst ` set es = fst ` set acc \<union> {label sl |i j sl. (i, j) \<in> set ps \<and> grid s ! i ! j = Some sl}"
      by (rule Cons.IH[OF Cons.prems(1) rest])
    then show ?thesis using a None by auto
  next
    case (Some cell)
    let ?acc = "AList.update (label cell) (positionsOf (label cell) acc @ [Pos (int i) (int j)]) acc"
    have "groupCells s ps ?acc = Inr es" using Cons.prems(3) a g Some by simp
    then have "fst ` set es = fst ` set ?acc \<union> {label sl |i j sl. (i, j) \<in> set ps \<and> grid s ! i ! j = Some sl}"
      by (rule Cons.IH[OF Cons.prems(1) rest])
    then show ?thesis using a Some by (auto simp: dom_update)
  qed
qed

lemma entriesOf_keys:
  assumes "shapeOk s" "entriesOf s = Inr es"
  shows "fst ` set es = {label sl |i j sl. i < rows s \<and> j < cols s \<and> grid s ! i ! j = Some sl}"
  using groupCells_keys[OF assms(1), of "positions s" "[]" es] assms(2)
  by (simp add: entriesOf_def set_positions)

text \<open>
  A call of \<^verbatim>\<open>map\<close> whose transform results are all valid: the board it commits, cell
  by cell. \<open>s0\<close> is the board at the start of the call and \<open>s\<close> the board at the commit.
\<close>

lemma mapInterleaved_cells:
  assumes "shapeOk s0" "shapeOk s" "rows s = rows s0" "cols s = cols s0"
    and "\<forall>i j sl. i < rows s0 \<and> j < cols s0 \<and> grid s0 ! i ! j = Some sl \<longrightarrow> \<not> invalidOut (t (label sl))"
  shows "\<exists>s'. mapInterleaved t s0 s = (checkRep s', s') \<and> shapeOk s' \<and> rows s' = rows s \<and> cols s' = cols s
    \<and> (\<forall>i j. i < rows s \<and> j < cols s \<longrightarrow>
          grid s' ! i ! j = (case grid s0 ! i ! j of
                               None \<Rightarrow> grid s ! i ! j
                             | Some sl0 \<Rightarrow> map_option (\<lambda>sl. sl\<lparr>label := t (label sl0)\<rparr>) (grid s ! i ! j)))"
proof -
  let ?lab0 = "\<lambda>q. case grid s0 ! nat (pos_r q) ! nat (pos_c q) of None \<Rightarrow> [] | Some sl \<Rightarrow> label sl"
  obtain es where es: "entriesOf s0 = Inr es \<and> distinct (map fst es)
    \<and> (\<forall>orig qs q. (orig, qs) \<in> set es \<and> q \<in> set qs \<longrightarrow>
           (\<exists>i j sl. q = Pos (int i) (int j) \<and> i < rows s0 \<and> j < cols s0 \<and> grid s0 ! i ! j = Some sl \<and> label sl = orig))
    \<and> (\<forall>i j sl. i < rows s0 \<and> j < cols s0 \<and> grid s0 ! i ! j = Some sl \<longrightarrow>
           (\<exists>qs. (label sl, qs) \<in> set es \<and> Pos (int i) (int j) \<in> set qs))"
    using entriesOf_groups[OF assms(1)] ..
  note e1 = es[THEN conjunct1]
    and e3 = es[THEN conjunct2, THEN conjunct2, THEN conjunct1, rule_format]
    and e4 = es[THEN conjunct2, THEN conjunct2, THEN conjunct2, rule_format]
  let ?m = "map (\<lambda>orig. (orig, t orig)) (map fst es)"
  have keys: "fst ` set es = {label sl |i j sl. i < rows s0 \<and> j < cols s0 \<and> grid s0 ! i ! j = Some sl}"
    by (rule entriesOf_keys[OF assms(1) e1])
  have "\<not> (\<exists>orig \<in> fst ` set es. invalidOut (t orig))"
    unfolding keys using assms(5) by auto
  then have res: "results t es = Inr ?m" by (simp add: results_cases)
  have hyp: "\<forall>(orig, qs) \<in> set es. (\<forall>q \<in> set qs. within q s \<and> ?lab0 q = orig) \<and> map_of ?m orig = Some (t orig)"
  proof (clarify, intro conjI ballI)
    fix orig qs q
    assume h: "(orig, qs) \<in> set es" "q \<in> set qs"
    obtain i j sl where q: "q = Pos (int i) (int j)" "i < rows s0" "j < cols s0" "grid s0 ! i ! j = Some sl" "label sl = orig"
      using e3[of orig qs q] h by blast
    show "within q s" using q assms(3,4) by (simp add: within_def)
    show "?lab0 q = orig" using q by simp
  next
    fix orig qs
    assume "(orig, qs) \<in> set es"
    then have "orig \<in> set (map fst es)" by force
    then show "map_of ?m orig = Some (t orig)" by (simp only: map_of_keys if_True)
  qed
  obtain s' where s': "commitGroups ?m es s = (Inr (), s') \<and> shapeOk s' \<and> rows s' = rows s \<and> cols s' = cols s
    \<and> (\<forall>i j. i < rows s \<and> j < cols s \<longrightarrow>
          grid s' ! i ! j = (if Pos (int i) (int j) \<in> \<Union> (set ` snd ` set es)
                             then map_option (\<lambda>sl. sl\<lparr>label := t (?lab0 (Pos (int i) (int j)))\<rparr>) (grid s ! i ! j)
                             else grid s ! i ! j))"
    using commitGroups_cells[OF assms(2), of es ?lab0 ?m t, OF hyp] ..
  have cells: "grid s' ! i ! j = (case grid s0 ! i ! j of
                               None \<Rightarrow> grid s ! i ! j
                             | Some sl0 \<Rightarrow> map_option (\<lambda>sl. sl\<lparr>label := t (label sl0)\<rparr>) (grid s ! i ! j))"
    if ij: "i < rows s \<and> j < cols s" for i j
  proof -
    let ?P = "Pos (int i) (int j)"
    have c: "grid s' ! i ! j = (if ?P \<in> \<Union> (set ` snd ` set es)
                             then map_option (\<lambda>sl. sl\<lparr>label := t (?lab0 ?P)\<rparr>) (grid s ! i ! j)
                             else grid s ! i ! j)"
      using s' ij by simp
    show ?thesis
    proof (cases "grid s0 ! i ! j")
      case None
      have "?P \<notin> \<Union> (set ` snd ` set es)"
      proof
        assume "?P \<in> \<Union> (set ` snd ` set es)"
        then obtain orig qs where "(orig, qs) \<in> set es" "?P \<in> set qs" by auto
        then obtain i' j' sl where "?P = Pos (int i') (int j')" "grid s0 ! i' ! j' = Some sl"
          using e3[of orig qs ?P] by blast
        then show False using None by simp
      qed
      then show ?thesis using c None by simp
    next
      case (Some sl0)
      have "\<exists>qs. (label sl0, qs) \<in> set es \<and> ?P \<in> set qs"
        using e4[of i j sl0] ij Some assms(3,4) by simp
      then have "?P \<in> \<Union> (set ` snd ` set es)" by force
      then show ?thesis using c Some by simp
    qed
  qed
  have "mapInterleaved t s0 s = (checkRep s', s')"
    using e1 res s' by (simp add: mapInterleaved_def mapFinish_def checked_def)
  then show ?thesis using s' cells by (intro exI[of _ s']) simp
qed

subsection \<open>The transformer: validation, groups, merging\<close>

text \<open>
  C6. If the transform maps the label of some card on the board to the empty string or to
  a string that contains a whitespace character, the whole call of \<^verbatim>\<open>map\<close> fails with
  \<^verbatim>\<open>InvalidLabel\<close> and the board is left exactly as it was: no label has changed. The
  same holds when other calls ran between the start of the call (board \<open>s0\<close>) and its
  failure (board \<open>s\<close>), and for \<^verbatim>\<open>mapCards\<close>.
\<close>

theorem map_invalid_label:
  assumes "shapeOk s0" "i < rows s0" "j < cols s0" "grid s0 ! i ! j = Some sl"
    and "transform (label sl) = [] \<or> (\<exists>ch \<in> set (transform (label sl)). isSpace ch)"
  shows "map_board transform s0 = (Inl InvalidLabel, s0)
    \<and> mapInterleaved transform s0 s = (Inl InvalidLabel, s)
    \<and> mapCards player transform s0 = (Inl InvalidLabel, s0)"
proof -
  obtain es where es: "entriesOf s0 = Inr es"
    using entriesOf_groups[OF assms(1)] by blast
  have "label sl \<in> fst ` set es"
    unfolding entriesOf_keys[OF assms(1) es] using assms(2,3,4) by blast
  moreover have "invalidOut (transform (label sl))" using assms(5) by (simp add: invalidOut_iff)
  ultimately have "\<exists>orig \<in> fst ` set es. invalidOut (transform orig)" by (rule bexI[rotated])
  then have "results transform es = Inl InvalidLabel" unfolding results_cases by simp
  then show ?thesis
    using es by (simp add: map_board_def mapInterleaved_def mapFinish_def mapCards_def
        mapCardsInterleaved_def mapCardsFinish_def)
qed

text \<open>The theorem on \<open>board_uu\<close>, for a transform that inserts a space and for one that returns the empty string.\<close>

theorem map_invalid_label_witness:
  "shapeOk board_uu \<and> grid board_uu ! 0 ! 0 = Some \<lparr>label = ''u'', faceUp = False, controller = None\<rparr>
   \<and> isSpace (CHR '' '')
   \<and> map_board (\<lambda>card. ''T '' @ card) board_uu = (Inl InvalidLabel, board_uu)
   \<and> map_board (\<lambda>card. []) board_uu = (Inl InvalidLabel, board_uu)"
proof -
  let ?sl = "\<lparr>label = ''u'', faceUp = False, controller = None\<rparr>"
  have h: "shapeOk board_uu" "0 < rows board_uu" "0 < cols board_uu" "grid board_uu ! 0 ! 0 = Some ?sl"
    by (simp_all add: rep_defs board_defs)
  have sp: "isSpace (CHR '' '')" by (simp add: isSpace_def)
  have a: "(\<lambda>card. ''T '' @ card) (label ?sl) = [] \<or> (\<exists>ch \<in> set ((\<lambda>card. ''T '' @ card) (label ?sl)). isSpace ch)"
    using sp by simp
  have b: "(\<lambda>card. []) (label ?sl) = [] \<or> (\<exists>ch \<in> set ((\<lambda>card::string. []::string) (label ?sl)). isSpace ch)"
    by simp
  show ?thesis
    using map_invalid_label[where transform="\<lambda>card. ''T '' @ card", OF h a]
      map_invalid_label[where transform="\<lambda>card. []", OF h b] h sp by simp
qed

lemma mapInterleaved_success_valid:
  assumes "shapeOk s0" "mapInterleaved t s0 s = (Inr (), s')"
  shows "\<forall>i j sl. i < rows s0 \<and> j < cols s0 \<and> grid s0 ! i ! j = Some sl \<longrightarrow> \<not> invalidOut (t (label sl))"
proof (intro allI impI notI)
  fix i j sl
  assume h: "i < rows s0 \<and> j < cols s0 \<and> grid s0 ! i ! j = Some sl" and bad: "invalidOut (t (label sl))"
  obtain es where es: "entriesOf s0 = Inr es"
    using entriesOf_groups[OF assms(1)] by blast
  have "label sl \<in> fst ` set es"
    unfolding entriesOf_keys[OF assms(1) es] using h by blast
  then have "\<exists>orig \<in> fst ` set es. invalidOut (t orig)" using bad by (rule bexI[rotated])
  then have "results t es = Inl InvalidLabel" unfolding results_cases by simp
  then show False using assms(2) es by (simp add: mapInterleaved_def mapFinish_def)
qed

text \<open>
  C7. Within one call of \<^verbatim>\<open>map\<close>, the transform is invoked on a duplicate-free list
  of labels, namely once for each distinct label on the board at the start of the call
  (\<open>s0\<close>). When the call returns normally, any two cells that shared a label at the start
  and are occupied at the end (\<open>s'\<close>) hold the same label at the end, the transform of
  their original one. This holds with other calls running between the start of the call
  and its commit (which finds board \<open>s\<close>), as long as the dimensions are those of the
  start, which no method changes.
\<close>

theorem map_once_per_label:
  assumes "shapeOk s0" "shapeOk s" "rows s = rows s0" "cols s = cols s0"
    and "mapInterleaved transform s0 s = (Inr (), s')"
  shows "(\<exists>entries. entriesOf s0 = Inr entries \<and> distinct (invocations entries)
        \<and> set (invocations entries) =
            {label sl |i j sl. i < rows s0 \<and> j < cols s0 \<and> grid s0 ! i ! j = Some sl})
    \<and> (\<forall>i j i' j' a b a' b'.
          i < rows s0 \<and> j < cols s0 \<and> i' < rows s0 \<and> j' < cols s0
          \<and> grid s0 ! i ! j = Some a \<and> grid s0 ! i' ! j' = Some b \<and> label a = label b
          \<and> grid s' ! i ! j = Some a' \<and> grid s' ! i' ! j' = Some b'
          \<longrightarrow> label a' = label b' \<and> label a' = transform (label a))"
proof (intro conjI)
  obtain es where es: "entriesOf s0 = Inr es" "distinct (map fst es)"
    using entriesOf_groups[OF assms(1)] by blast
  show "\<exists>entries. entriesOf s0 = Inr entries \<and> distinct (invocations entries)
        \<and> set (invocations entries) =
            {label sl |i j sl. i < rows s0 \<and> j < cols s0 \<and> grid s0 ! i ! j = Some sl}"
    using es entriesOf_keys[OF assms(1) es(1)] by (intro exI[of _ es]) (simp add: invocations_def)
next
  have valid: "\<forall>i j sl. i < rows s0 \<and> j < cols s0 \<and> grid s0 ! i ! j = Some sl \<longrightarrow> \<not> invalidOut (transform (label sl))"
    by (rule mapInterleaved_success_valid[OF assms(1,5)])
  obtain s1 where s1: "mapInterleaved transform s0 s = (checkRep s1, s1) \<and> shapeOk s1 \<and> rows s1 = rows s \<and> cols s1 = cols s
    \<and> (\<forall>i j. i < rows s \<and> j < cols s \<longrightarrow>
          grid s1 ! i ! j = (case grid s0 ! i ! j of
                               None \<Rightarrow> grid s ! i ! j
                             | Some sl0 \<Rightarrow> map_option (\<lambda>sl. sl\<lparr>label := transform (label sl0)\<rparr>) (grid s ! i ! j)))"
    using mapInterleaved_cells[OF assms(1,2,3,4) valid] ..
  have eq: "s1 = s'" using s1 assms(5) by simp
  have cell: "label x' = transform (label x)"
    if "i < rows s0 \<and> j < cols s0" "grid s0 ! i ! j = Some x" "grid s' ! i ! j = Some x'" for i j x x'
  proof -
    have "grid s' ! i ! j = map_option (\<lambda>sl. sl\<lparr>label := transform (label x)\<rparr>) (grid s ! i ! j)"
      using s1 that(1,2) assms(3,4) unfolding eq by simp
    then show ?thesis using that(3) by (cases "grid s ! i ! j") auto
  qed
  show "\<forall>i j i' j' a b a' b'.
          i < rows s0 \<and> j < cols s0 \<and> i' < rows s0 \<and> j' < cols s0
          \<and> grid s0 ! i ! j = Some a \<and> grid s0 ! i' ! j' = Some b \<and> label a = label b
          \<and> grid s' ! i ! j = Some a' \<and> grid s' ! i' ! j' = Some b'
          \<longrightarrow> label a' = label b' \<and> label a' = transform (label a)"
  proof (intro allI impI)
    fix i j i' j' a b a' b'
    assume h: "i < rows s0 \<and> j < cols s0 \<and> i' < rows s0 \<and> j' < cols s0
          \<and> grid s0 ! i ! j = Some a \<and> grid s0 ! i' ! j' = Some b \<and> label a = label b
          \<and> grid s' ! i ! j = Some a' \<and> grid s' ! i' ! j' = Some b'"
    have "label a' = transform (label a)" using cell[of i j a a'] h by simp
    moreover have "label b' = transform (label b)" using cell[of i' j' b b'] h by simp
    ultimately show "label a' = label b' \<and> label a' = transform (label a)" using h by simp
  qed
qed


text \<open>
  The theorem for a call that starts on \<open>board_uu\<close> and commits on
  \<open>board_uu_matched\<close>, alice having flipped both cards in between: one invocation, on
  \<^verbatim>\<open>u\<close>, and both cards relabelled alike.
\<close>

theorem map_once_per_label_witness:
  "shapeOk board_uu \<and> shapeOk board_uu_matched
   \<and> rows board_uu_matched = rows board_uu \<and> cols board_uu_matched = cols board_uu
   \<and> fst (mapInterleaved (\<lambda>card. ''T_'' @ card) board_uu board_uu_matched) = Inr ()
   \<and> entriesOf board_uu = Inr [(''u'', [Pos 0 0, Pos 0 1])]
   \<and> (\<exists>entries. entriesOf board_uu = Inr entries \<and> distinct (invocations entries)
        \<and> set (invocations entries) =
            {label sl |i j sl. i < rows board_uu \<and> j < cols board_uu \<and> grid board_uu ! i ! j = Some sl})
   \<and> grid (snd (mapInterleaved (\<lambda>card. ''T_'' @ card) board_uu board_uu_matched)) =
       [[Some \<lparr>label = ''T_u'', faceUp = True, controller = Some ''alice''\<rparr>,
         Some \<lparr>label = ''T_u'', faceUp = True, controller = Some ''alice''\<rparr>]]"
proof -
  let ?t = "\<lambda>card. ''T_'' @ card"
  let ?s' = "snd (mapInterleaved ?t board_uu board_uu_matched)"
  have h: "shapeOk board_uu" "shapeOk board_uu_matched"
    "rows board_uu_matched = rows board_uu" "cols board_uu_matched = cols board_uu"
    by (simp_all add: rep_defs board_defs)
  have f: "fst (mapInterleaved ?t board_uu board_uu_matched) = Inr ()"
    by (simp add: map_defs state_defs rep_defs board_defs numeral_2_eq_2)
  then have r: "mapInterleaved ?t board_uu board_uu_matched = (Inr (), ?s')"
    by (simp add: prod_eq_iff)
  have e: "entriesOf board_uu = Inr [(''u'', [Pos 0 0, Pos 0 1])]"
    by (simp add: map_defs state_defs board_defs numeral_2_eq_2)
  have g: "grid ?s' =
       [[Some \<lparr>label = ''T_u'', faceUp = True, controller = Some ''alice''\<rparr>,
         Some \<lparr>label = ''T_u'', faceUp = True, controller = Some ''alice''\<rparr>]]"
    by (simp add: map_defs state_defs rep_defs board_defs numeral_2_eq_2)
  show ?thesis
    using map_once_per_label[where transform="?t", OF h r, THEN conjunct1] h f e g by simp
qed

text \<open>An uninterrupted call of \<^verbatim>\<open>map\<close> with valid results returns normally.\<close>

lemma map_board_valid:
  assumes "repOk s"
    and "\<forall>i j sl. i < rows s \<and> j < cols s \<and> grid s ! i ! j = Some sl \<longrightarrow> \<not> invalidOut (t (label sl))"
  shows "\<exists>s'. map_board t s = (Inr (), s') \<and> repOk s'
    \<and> (\<forall>i j. i < rows s \<and> j < cols s \<longrightarrow>
          grid s' ! i ! j = map_option (\<lambda>sl. sl\<lparr>label := t (label sl)\<rparr>) (grid s ! i ! j))"
proof -
  have sh: "shapeOk s" using assms(1) by (simp add: repOk_def)
  obtain s' where s': "mapInterleaved t s s = (checkRep s', s') \<and> shapeOk s' \<and> rows s' = rows s \<and> cols s' = cols s
    \<and> (\<forall>i j. i < rows s \<and> j < cols s \<longrightarrow>
          grid s' ! i ! j = (case grid s ! i ! j of
                               None \<Rightarrow> grid s ! i ! j
                             | Some sl0 \<Rightarrow> map_option (\<lambda>sl. sl\<lparr>label := t (label sl0)\<rparr>) (grid s ! i ! j)))"
    using mapInterleaved_cells[OF sh sh refl refl assms(2)] ..
  have cells: "grid s' ! i ! j = map_option (\<lambda>sl. sl\<lparr>label := t (label sl)\<rparr>) (grid s ! i ! j)"
    if "i < rows s \<and> j < cols s" for i j
    using s' that by (cases "grid s ! i ! j") simp_all
  have "unlabelled (snd (mapInterleaved t s s)) = unlabelled s"
    by (simp add: mapInterleaved_def unlabelled_mapFinish split: sum.splits)
  then have pend: "pending s' = pending s" using s' by (simp add: unlabelled_def)
  have o: "outcomeOk s' = outcomeOk s" using s' by (intro outcomeOk_cong) simp_all
  have slots: "list_all (list_all slotOk) (grid s')"
    unfolding list_all_length
  proof (intro allI impI)
    fix i j
    assume i: "i < length (grid s')" and j: "j < length (grid s' ! i)"
    have i': "i < rows s" using i s' by (simp add: shapeOk_def)
    have j': "j < cols s" using j shape_lengths[of s' i] s' i' by simp
    have l: "i < length (grid s)" "j < length (grid s ! i)"
      using shape_lengths[OF sh i'] j' by simp_all
    have old: "slotOk (grid s ! i ! j)"
      using assms(1) l by (simp add: repOk_def list_all_length)
    show "slotOk (grid s' ! i ! j)"
    proof (cases "grid s ! i ! j")
      case None
      then show ?thesis using cells[of i j] i' j' by (simp add: slotOk_def)
    next
      case (Some sl)
      have "cardRe (t (label sl))" using assms(2) i' j' Some by (intro valid_cardRe) blast
      then show ?thesis using cells[of i j] i' j' Some old by (simp add: slotOk_def)
    qed
  qed
  have "repOk s'" using s' slots assms(1) by (simp add: repOk_def o pend)
  then show ?thesis using s' cells by (intro exI[of _ s']) (simp add: map_board_def checkRep_def)
qed

text \<open>
  C10. \<^verbatim>\<open>map\<close> asks nothing of the transform beyond valid results: whenever it sends
  two different labels of the board to the same valid label \<open>z\<close>, the call returns
  normally and the cells that held either label hold \<open>z\<close> afterwards, so two cards that
  did not match before the call match after it.
\<close>

theorem map_merges_labels:
  assumes "repOk s"
    and "\<forall>i j sl. i < rows s \<and> j < cols s \<and> grid s ! i ! j = Some sl \<longrightarrow> \<not> invalidOut (transform (label sl))"
    and "i < rows s" "j < cols s" "grid s ! i ! j = Some a"
    and "i' < rows s" "j' < cols s" "grid s ! i' ! j' = Some b"
    and "label a \<noteq> label b" "transform (label a) = z" "transform (label b) = z"
  shows "fst (map_board transform s) = Inr ()
    \<and> grid (snd (map_board transform s)) ! i ! j = Some (a\<lparr>label := z\<rparr>)
    \<and> grid (snd (map_board transform s)) ! i' ! j' = Some (b\<lparr>label := z\<rparr>)"
proof -
  obtain s' where s': "map_board transform s = (Inr (), s') \<and> repOk s'
    \<and> (\<forall>i j. i < rows s \<and> j < cols s \<longrightarrow>
          grid s' ! i ! j = map_option (\<lambda>sl. sl\<lparr>label := transform (label sl)\<rparr>) (grid s ! i ! j))"
    using map_board_valid[OF assms(1,2)] ..
  then show ?thesis using assms(3-11) by simp
qed

text \<open>The theorem on \<open>board_ab\<close> with the constant transform \<^verbatim>\<open>card => "z"\<close>.\<close>

theorem map_merges_labels_witness:
  "repOk board_ab
   \<and> grid board_ab ! 0 ! 0 = Some \<lparr>label = ''a'', faceUp = False, controller = None\<rparr>
   \<and> grid board_ab ! 0 ! 1 = Some \<lparr>label = ''b'', faceUp = False, controller = None\<rparr>
   \<and> \<not> invalidOut ''z''
   \<and> fst (map_board (\<lambda>card. ''z'') board_ab) = Inr ()
   \<and> grid (snd (map_board (\<lambda>card. ''z'') board_ab)) ! 0 ! 0
       = Some \<lparr>label = ''z'', faceUp = False, controller = None\<rparr>
   \<and> grid (snd (map_board (\<lambda>card. ''z'') board_ab)) ! 0 ! 1
       = Some \<lparr>label = ''z'', faceUp = False, controller = None\<rparr>"
proof -
  let ?a = "\<lparr>label = ''a'', faceUp = False, controller = None\<rparr>"
  let ?b = "\<lparr>label = ''b'', faceUp = False, controller = None\<rparr>"
  have r: "repOk board_ab" by (simp add: rep_defs board_defs state_defs)
  have v: "\<not> invalidOut ''z''" by (simp add: invalidOut_iff isSpace_def)
  then have valid: "\<forall>i j sl. i < rows board_ab \<and> j < cols board_ab \<and> grid board_ab ! i ! j = Some sl
      \<longrightarrow> \<not> invalidOut ((\<lambda>card. ''z'') (label sl))" by simp
  have c: "0 < rows board_ab" "0 < cols board_ab" "grid board_ab ! 0 ! 0 = Some ?a"
    "0 < rows board_ab" "1 < cols board_ab" "grid board_ab ! 0 ! 1 = Some ?b"
    "label ?a \<noteq> label ?b" "(\<lambda>card. ''z'') (label ?a) = ''z''" "(\<lambda>card. ''z'') (label ?b) = ''z''"
    by (simp_all add: board_defs)
  show ?thesis
    using map_merges_labels[where transform="\<lambda>card. ''z''", OF r valid c] r v c(3,6) by simp
qed

subsection \<open>The invariant of the reachable boards\<close>

lemma Pos_eq_within:
  "within q s \<Longrightarrow> within q' s \<Longrightarrow> (q' = q) = (nat (pos_r q') = nat (pos_r q) \<and> nat (pos_c q') = nat (pos_c q))"
  by (cases q; cases q') (auto simp: within_def)

lemma within_lengths:
  "shapeOk s \<Longrightarrow> within q s \<Longrightarrow>
     nat (pos_r q) < length (grid s) \<and> nat (pos_c q) < length (grid s ! nat (pos_r q))"
  using shape_lengths[of s "nat (pos_r q)"] by (auto simp: within_def)

lemma cellOf_modifySlot:
  assumes "shapeOk s" "within q s" "within q' s"
  shows "cellOf (modifySlot q f s) q' = (if q' = q then map_option f (cellOf s q) else cellOf s q')"
proof -
  have l: "nat (pos_r q') < length (grid s)" "nat (pos_c q') < length (grid s ! nat (pos_r q'))"
    using within_lengths[OF assms(1,3)] by simp_all
  show ?thesis
    unfolding cellOf_def grid_modifySlot[OF l] using Pos_eq_within[OF assms(2,3)] by auto
qed

lemma slotAt_cellOf: "shapeOk s \<Longrightarrow> within q s \<Longrightarrow> slotAt q s = Inr (cellOf s q)"
  by (simp add: slotAt_within cellOf_def)

lemma getCell_cellOf: "shapeOk s \<Longrightarrow> within q s \<Longrightarrow> getCell (pos_r q) (pos_c q) s = Inr (cellOf s q)"
  by (simp add: getCell_within cellOf_def)

lemma selection_in:
  "selectionsOk s \<Longrightarrow> map_of (firstSelection s) p = Some q \<Longrightarrow> within q s"
  by (rule selection_within)

lemma selectionsOk_cong:
  "rows s' = rows s \<Longrightarrow> cols s' = cols s \<Longrightarrow> firstSelection s' = firstSelection s
    \<Longrightarrow> selectionsOk s' = selectionsOk s"
  by (simp add: selectionsOk_def within_def)

lemma selectionHeld_cong:
  "grid s' = grid s \<Longrightarrow> firstSelection s' = firstSelection s \<Longrightarrow> selectionHeld s' = selectionHeld s"
  by (simp add: selectionHeld_def cellOf_def)

lemma boardInv_cong:
  assumes "rows s' = rows s" "cols s' = cols s" "grid s' = grid s"
    "firstSelection s' = firstSelection s" "pending s' = pending s"
  shows "boardInv s' = boardInv s"
  using repOk_cong[OF assms(1,2,3,5)] selectionsOk_cong[OF assms(1,2,4)] selectionHeld_cong[OF assms(3,4)]
  by (simp add: boardInv_def)

lemma boardInv_wakeNext [simp]: "boardInv (wakeNext q s) = boardInv s"
  by (rule boardInv_cong) simp_all

lemma boardInv_notifyChange [simp]: "boardInv (notifyChange s) = boardInv s"
  by (rule boardInv_cong) simp_all

lemma boardInv_enqueueAndWait [simp]: "boardInv (enqueueAndWait q p s) = boardInv s"
  by (rule boardInv_cong) simp_all

lemma boardInv_watch [simp]: "boardInv (watch p s) = boardInv s"
  by (rule boardInv_cong) (simp_all add: watch_def)

lemma boardInv_jobs [simp]: "boardInv (s\<lparr>jobs := js\<rparr>) = boardInv s"
  by (rule boardInv_cong) simp_all

text \<open>Changing a slot in place keeps the invariant when the new slot is a legal slot and
  every player who has selected it still holds it.\<close>

lemma boardInv_modifySlot:
  assumes "boardInv s" "within q s" "cellOf s q = Some sl"
    and "slotOk (Some (f sl))"
    and "\<forall>p. map_of (firstSelection s) p = Some q \<longrightarrow> faceUp (f sl) \<and> controller (f sl) = Some p"
  shows "boardInv (modifySlot q f s)"
proof -
  have r: "repOk s" and so: "selectionsOk s" and sh: "selectionHeld s" and shape: "shapeOk s"
    using assms(1) by (simp_all add: boardInv_def repOk_def)
  have 1: "repOk (modifySlot q f s)"
    using assms(3,4) by (intro repOk_modifySlot[OF r]) (simp add: cellOf_def)
  have 2: "selectionsOk (modifySlot q f s)"
    using so by (simp add: selectionsOk_cong[of "modifySlot q f s" s])
  have 3: "selectionHeld (modifySlot q f s)"
    unfolding selectionHeld_def
  proof (intro allI impI)
    fix p q' sl'
    assume h: "map_of (firstSelection (modifySlot q f s)) p = Some q' \<and> cellOf (modifySlot q f s) q' = Some sl'"
    then have sel: "map_of (firstSelection s) p = Some q'" by simp
    have w': "within q' s" by (rule selection_in[OF so sel])
    have c: "cellOf (modifySlot q f s) q' = (if q' = q then map_option f (cellOf s q) else cellOf s q')"
      by (rule cellOf_modifySlot[OF shape assms(2) w'])
    show "faceUp sl' \<and> controller sl' = Some p"
    proof (cases "q' = q")
      case True
      then have "sl' = f sl" using h c assms(3) by simp
      then show ?thesis using assms(5) sel True by simp
    next
      case False
      then have "cellOf s q' = Some sl'" using h c by simp
      then show ?thesis using sh sel by (auto simp: selectionHeld_def)
    qed
  qed
  show ?thesis using 1 2 3 by (simp add: boardInv_def)
qed

lemma boardInv_unselectFirst: "boardInv s \<Longrightarrow> boardInv (unselectFirst p s)"
proof -
  assume a: "boardInv s"
  have m: "map_of (firstSelection (unselectFirst p s)) p' = Some q \<Longrightarrow> map_of (firstSelection s) p' = Some q" for p' q
    by (auto simp: unselectFirst_def delete_conv' split: if_splits)
  have d: "list_all P (AList.delete p al)" if "list_all P al" for P and al :: "(PlayerID \<times> Pos) list"
    using that by (simp add: AList.delete_eq list_all_iff)
  have "list_all (\<lambda>(p, q). within q s) (AList.delete p (firstSelection s))"
    using a by (intro d) (simp add: boardInv_def selectionsOk_def)
  then have "selectionsOk (unselectFirst p s)"
    by (simp add: selectionsOk_def unselectFirst_def within_def)
  moreover have "selectionHeld (unselectFirst p s)"
    unfolding selectionHeld_def
  proof (intro allI impI)
    fix p' q sl
    assume h: "map_of (firstSelection (unselectFirst p s)) p' = Some q \<and> cellOf (unselectFirst p s) q = Some sl"
    then have "map_of (firstSelection s) p' = Some q" "cellOf s q = Some sl"
      using m by (simp_all add: cellOf_def)
    then show "faceUp sl \<and> controller sl = Some p'"
      using a by (auto simp: boardInv_def selectionHeld_def)
  qed
  ultimately show ?thesis using a by (simp add: boardInv_def)
qed

lemma boardInv_selectFirst:
  assumes "boardInv s" "within pos s" "cellOf s pos = Some sl" "faceUp sl" "controller sl = Some p"
  shows "boardInv (selectFirst p pos s)"
proof -
  have "selectionsOk (selectFirst p pos s)"
    using assms(1,2) list_all_alist_update[of "\<lambda>q. within q s" "firstSelection s" pos p]
    by (simp add: boardInv_def selectionsOk_def selectFirst_def within_def)
  moreover have "selectionHeld (selectFirst p pos s)"
    using assms by (auto simp: boardInv_def selectionHeld_def cellOf_def selectFirst_def update_conv')
  ultimately show ?thesis using assms(1) by (simp add: boardInv_def)
qed

lemma boardInv_setPending: "boardInv s \<Longrightarrow> outcomeOk s out \<Longrightarrow> boardInv (setPending p out s)"
  using repOk_setPending[of s out p]
    selectionsOk_cong[of "setPending p out s" s] selectionHeld_cong[of "setPending p out s" s]
  by (simp add: boardInv_def)

lemma boardInv_clearPending: "boardInv s \<Longrightarrow> boardInv (clearPending p s)"
  using boardInv_setPending[of s NoOutcome p] by (simp add: clearPending_def setPending_def outcomeOk_def)

lemma cellOf_cong: "grid s' = grid s \<Longrightarrow> cellOf s' q = cellOf s q"
  by (simp add: cellOf_def)

lemma repOk_cell:
  assumes "repOk s" "within q s"
  shows "slotOk (cellOf s q)"
proof -
  have shape: "shapeOk s" and all: "list_all (list_all slotOk) (grid s)"
    using assms(1) by (simp_all add: repOk_def)
  have l: "nat (pos_r q) < length (grid s)" "nat (pos_c q) < length (grid s ! nat (pos_r q))"
    using within_lengths[OF shape assms(2)] by simp_all
  have "list_all slotOk (grid s ! nat (pos_r q))" using all l(1) by (simp add: list_all_length)
  then show ?thesis using l(2) by (simp add: list_all_length cellOf_def)
qed

lemma boardInv_remove:
  assumes "boardInv s" "within a s"
  shows "\<exists>s'. setCell (pos_r a) (pos_c a) None s = Inr s' \<and> boardInv s'
    \<and> rows s' = rows s \<and> cols s' = cols s \<and> pending s' = pending s"
proof -
  let ?i = "nat (pos_r a)" and ?j = "nat (pos_c a)"
  have r: "repOk s" and so: "selectionsOk s" and sh: "selectionHeld s" and shape: "shapeOk s"
    using assms(1) by (simp_all add: boardInv_def repOk_def)
  have n: "slotOk None" by (simp add: slotOk_def)
  obtain s' where s': "setCell (pos_r a) (pos_c a) None s = Inr s'" "repOk s'"
    "rows s' = rows s" "cols s' = cols s" "firstSelection s' = firstSelection s"
    "pending s' = pending s" "waitQueues s' = waitQueues s" "watchers s' = watchers s"
    "jobs s' = jobs s"
    by (rule setCell_ok[OF r assms(2) n])
  have l: "?i < length (grid s)" "?j < length (grid s ! ?i)" "0 \<le> pos_r a" "0 \<le> pos_c a"
    "pos_c a < int (cols s)"
    using within_lengths[OF shape assms(2)] assms(2) by (simp_all add: within_def)
  have len: "length (grid s ! ?i) = cols s" using shape_lengths[OF shape, of ?i] l(1) shape
    by (simp add: shapeOk_def)
  have g: "grid s' = (grid s)[?i := (grid s ! ?i)[?j := None]]"
    using s'(1) l len by (simp add: setCell_def row_def assign_def split: if_splits) auto
  have cell: "cellOf s' q = (if q = a then None else cellOf s q)" if w: "within q s" for q
  proof -
    have lq: "nat (pos_r q) < length (grid s)" "nat (pos_c q) < length (grid s ! nat (pos_r q))"
      using within_lengths[OF shape w] by simp_all
    show ?thesis
      unfolding cellOf_def g using lq l Pos_eq_within[OF assms(2) w]
      by (auto simp: nth_list_update)
  qed
  have "selectionsOk s'" using so s'(3,4,5) by (simp add: selectionsOk_cong[of s' s])
  moreover have "selectionHeld s'"
    unfolding selectionHeld_def
  proof (intro allI impI)
    fix p q sl
    assume h: "map_of (firstSelection s') p = Some q \<and> cellOf s' q = Some sl"
    then have sel: "map_of (firstSelection s) p = Some q" using s'(5) by simp
    have "within q s" by (rule selection_in[OF so sel])
    then have "cellOf s q = Some sl" using cell[of q] h by (simp split: if_splits)
    then show "faceUp sl \<and> controller sl = Some p" using sh sel by (auto simp: selectionHeld_def)
  qed
  ultimately have "boardInv s'" using s'(2) by (simp add: boardInv_def)
  then show ?thesis using s' by (intro exI[of _ s']) simp
qed

lemma boardInv_turnDown:
  assumes "boardInv (fst sf)" "within q (fst sf)"
  shows "\<exists>sf'. turnDown q sf = Inr sf' \<and> boardInv (fst sf')
    \<and> rows (fst sf') = rows (fst sf) \<and> cols (fst sf') = cols (fst sf) \<and> pending (fst sf') = pending (fst sf)"
proof -
  let ?s = "fst sf"
  have shape: "shapeOk ?s" and sh: "selectionHeld ?s" and r: "repOk ?s"
    using assms(1) by (simp_all add: boardInv_def repOk_def)
  have g: "getCell (pos_r q) (pos_c q) ?s = Inr (cellOf ?s q)" by (rule getCell_cellOf[OF shape assms(2)])
  show ?thesis
  proof (cases "\<exists>sl. cellOf ?s q = Some sl \<and> faceUp sl \<and> controller sl = None")
    case True
    then obtain sl where sl: "cellOf ?s q = Some sl" "faceUp sl" "controller sl = None" by blast
    let ?s' = "modifySlot q (\<lambda>sl. sl\<lparr>faceUp := False\<rparr>) ?s"
    have ok: "slotOk (Some sl)" using repOk_cell[OF r assms(2)] sl(1) by simp
    have t: "turnDown q sf = Inr (?s', True)" using g sl by (simp add: turnDown_def)
    have "boardInv ?s'"
    proof (rule boardInv_modifySlot[OF assms(1,2) sl(1)])
      show "slotOk (Some (sl\<lparr>faceUp := False\<rparr>))" using ok sl(3) by (simp add: slotOk_def)
      show "\<forall>p. map_of (firstSelection ?s) p = Some q \<longrightarrow>
          faceUp (sl\<lparr>faceUp := False\<rparr>) \<and> controller (sl\<lparr>faceUp := False\<rparr>) = Some p"
        using sh sl by (auto simp: selectionHeld_def)
    qed
    then show ?thesis using t by (intro exI[of _ "(?s', True)"]) simp
  next
    case False
    then have "turnDown q sf = Inr sf"
      using g by (auto simp: turnDown_def split: option.splits)
    then show ?thesis using assms(1) by (intro exI[of _ sf]) simp
  qed
qed

lemma boardInv_pending_within:
  "boardInv s \<Longrightarrow> pendingOf p s = Matched a b \<or> pendingOf p s = Mismatched a b \<Longrightarrow> within a s \<and> within b s"
  by (rule pending_within) (simp_all add: boardInv_def)

lemma boardInv_settle:
  assumes "boardInv s"
  shows "\<exists>s1. settleBeforeNewFirstMove p s = (Inr (), s1) \<and> boardInv s1
    \<and> rows s1 = rows s \<and> cols s1 = cols s"
proof (cases "pendingOf p s")
  case NoOutcome
  then show ?thesis using assms by (simp add: settleBeforeNewFirstMove_def)
next
  case (Matched a b)
  then have w: "within a s" "within b s" using boardInv_pending_within[OF assms, of p a b] by simp_all
  obtain s1 where s1: "setCell (pos_r a) (pos_c a) None s = Inr s1 \<and> boardInv s1
    \<and> rows s1 = rows s \<and> cols s1 = cols s \<and> pending s1 = pending s"
    using boardInv_remove[OF assms w(1)] ..
  have wb: "within b s1" using w(2) s1 by (simp add: within_def)
  have i1: "boardInv s1" using s1 by simp
  obtain s2 where s2: "setCell (pos_r b) (pos_c b) None s1 = Inr s2 \<and> boardInv s2
    \<and> rows s2 = rows s1 \<and> cols s2 = cols s1 \<and> pending s2 = pending s1"
    using boardInv_remove[OF i1 wb] ..
  let ?s3 = "clearPending p (notifyChange (wakeNext b (wakeNext a s2)))"
  have i3: "boardInv ?s3" using s2 by (simp add: boardInv_clearPending)
  then have "repOk ?s3" by (simp add: boardInv_def)
  then have "settleBeforeNewFirstMove p s = (Inr (), ?s3)"
    using Matched s1 s2 by (simp add: settleBeforeNewFirstMove_def checked_def checkRep_def)
  then show ?thesis using i3 s1 s2 by (intro exI[of _ ?s3]) simp
next
  case (Mismatched a b)
  then have w: "within a s" "within b s" using boardInv_pending_within[OF assms, of p a b] by simp_all
  have a0: "boardInv (fst (s, False))" "within a (fst (s, False))" using assms w(1) by simp_all
  obtain sf1 where s1: "turnDown a (s, False) = Inr sf1 \<and> boardInv (fst sf1)
    \<and> rows (fst sf1) = rows (fst (s, False)) \<and> cols (fst sf1) = cols (fst (s, False))
    \<and> pending (fst sf1) = pending (fst (s, False))"
    using boardInv_turnDown[OF a0] ..
  have wb: "within b (fst sf1)" using w(2) s1 by (simp add: within_def)
  have i1: "boardInv (fst sf1)" using s1 by simp
  obtain sf2 where s2: "turnDown b sf1 = Inr sf2 \<and> boardInv (fst sf2)
    \<and> rows (fst sf2) = rows (fst sf1) \<and> cols (fst sf2) = cols (fst sf1)
    \<and> pending (fst sf2) = pending (fst sf1)"
    using boardInv_turnDown[OF i1 wb] ..
  let ?s3 = "clearPending p (if snd sf2 then notifyChange (fst sf2) else fst sf2)"
  have i3: "boardInv ?s3" using s2 by (simp add: boardInv_clearPending)
  then have "repOk ?s3" by (simp add: boardInv_def)
  then have "settleBeforeNewFirstMove p s = (Inr (), ?s3)"
    using Mismatched s1 s2 by (simp add: settleBeforeNewFirstMove_def checked_def checkRep_def)
  then show ?thesis using i3 s1 s2 by (intro exI[of _ ?s3]) simp
qed

text \<open>Rules 1-B and 1-C: taking the card at \<open>pos\<close> as first card.\<close>

lemma boardInv_take:
  assumes "boardInv s" "within pos s" "cellOf s pos = Some slot"
    and "\<not> faceUp slot \<or> controller slot = None \<or> controller slot = Some by"
    and "faceUp (f slot)" "controller (f slot) = Some by" "label (f slot) = label slot"
  shows "boardInv (selectFirst by pos (modifySlot pos f s))"
    and "boardInv (selectFirst by pos (notifyChange (modifySlot pos f s)))"
proof -
  have r: "repOk s" and sh: "selectionHeld s" and shape: "shapeOk s"
    using assms(1) by (simp_all add: boardInv_def repOk_def)
  have ok: "slotOk (Some slot)" using repOk_cell[OF r assms(2)] assms(3) by simp
  have m: "boardInv (modifySlot pos f s)"
  proof (rule boardInv_modifySlot[OF assms(1,2,3)])
    show "slotOk (Some (f slot))" using ok assms(5,7) by (simp add: slotOk_def)
    show "\<forall>p. map_of (firstSelection s) p = Some pos \<longrightarrow> faceUp (f slot) \<and> controller (f slot) = Some p"
    proof (intro allI impI)
      fix p
      assume "map_of (firstSelection s) p = Some pos"
      then have "faceUp slot \<and> controller slot = Some p"
        using sh assms(3) by (auto simp: selectionHeld_def)
      then show "faceUp (f slot) \<and> controller (f slot) = Some p" using assms(4,5,6) by auto
    qed
  qed
  have c: "cellOf (modifySlot pos f s) pos = Some (f slot)"
    using cellOf_modifySlot[OF shape assms(2,2), of f] assms(3) by simp
  have w: "within pos (modifySlot pos f s)" using assms(2) by simp
  show 1: "boardInv (selectFirst by pos (modifySlot pos f s))"
    by (rule boardInv_selectFirst[OF m w c assms(5,6)])
  have "boardInv (selectFirst by pos (notifyChange (modifySlot pos f s)))
      = boardInv (selectFirst by pos (modifySlot pos f s))"
    by (rule boardInv_cong) (simp_all add: selectFirst_def)
  then show "boardInv (selectFirst by pos (notifyChange (modifySlot pos f s)))" using 1 by simp
qed

lemma boardInv_attemptFirst:
  assumes "boardInv s"
  shows "boardInv (snd (attemptFirst pos by s))"
proof (cases "within pos s")
  case False
  then show ?thesis using assms by (simp add: attemptFirst_def slotAt_def)
next
  case True
  have shape: "shapeOk s" using assms by (simp add: boardInv_def repOk_def)
  have sl: "slotAt pos s = Inr (cellOf s pos)" by (rule slotAt_cellOf[OF shape True])
  show ?thesis
  proof (cases "cellOf s pos")
    case None
    then show ?thesis using assms sl by (simp add: attemptFirst_def)
  next
    case (Some slot)
    have b: "boardInv (selectFirst by pos (notifyChange
        (modifySlot pos (\<lambda>sl. sl\<lparr>faceUp := True, controller := Some by\<rparr>) s)))" if "\<not> faceUp slot"
      using that by (intro boardInv_take(2)[OF assms True Some]) simp_all
    have c: "boardInv (selectFirst by pos (modifySlot pos (\<lambda>sl. sl\<lparr>controller := Some by\<rparr>) s))"
      if "faceUp slot" and "controller slot = None \<or> controller slot = Some by"
      using that by (intro boardInv_take(1)[OF assms True Some]) auto
    show ?thesis using assms sl Some b c by (auto simp: attemptFirst_def Let_def)
  qed
qed

lemma boardInv_flipFirstAsync:
  assumes "boardInv s"
  shows "boardInv (snd (flipFirstAsync pos by s))"
proof -
  obtain s1 where s1: "settleBeforeNewFirstMove by s = (Inr (), s1) \<and> boardInv s1 \<and> rows s1 = rows s \<and> cols s1 = cols s"
    using boardInv_settle[OF assms] ..
  then show ?thesis using boardInv_attemptFirst[of s1 pos "by"] by (simp add: flipFirstAsync_def)
qed

text \<open>The synchronous first flip differs from an attempt only where the attempt would wait.\<close>

lemma flipFirst_attempt:
  "snd (flipFirst pos by s) = (let s1 = snd (settleBeforeNewFirstMove by s) in
     if fst (settleBeforeNewFirstMove by s) = Inr () \<and> fst (attemptFirst pos by s1) \<noteq> Inr Suspended
     then snd (attemptFirst pos by s1) else s1)"
  by (cases "settleBeforeNewFirstMove by s")
    (auto simp: flipFirst_def attemptFirst_def checked_def checkRep_def Let_def
      split: sum.splits option.splits)

lemma boardInv_flipFirst:
  assumes "boardInv s"
  shows "boardInv (snd (flipFirst pos by s))"
proof -
  obtain s1 where s1: "settleBeforeNewFirstMove by s = (Inr (), s1) \<and> boardInv s1 \<and> rows s1 = rows s \<and> cols s1 = cols s"
    using boardInv_settle[OF assms] ..
  then show ?thesis
    using boardInv_attemptFirst[of s1 pos "by"] by (simp add: flipFirst_attempt Let_def)
qed

lemma boardInv_settle_snd: "boardInv s \<Longrightarrow> boardInv (snd (settleBeforeNewFirstMove p s))"
  using boardInv_settle[of s p] by auto

lemma boardInv_runJob: "boardInv s \<Longrightarrow> boardInv (runJob s)"
  using boardInv_attemptFirst[of "s\<lparr>jobs := tl (jobs s)\<rparr>"]
  by (auto simp: runJob_def split: list.splits Job.splits)

text \<open>Changing the first card of a player whose selection is dropped in the same call.\<close>

lemma boardInv_release:
  assumes "boardInv s" "map_of (firstSelection s) p = Some first" "cellOf s first = Some s1"
    and "label (g s1) = label s1" "faceUp (g s1)"
  shows "boardInv (modifySlot first g (unselectFirst p s))"
proof -
  let ?s' = "unselectFirst p s"
  have r: "repOk s" and so: "selectionsOk s" and sh: "selectionHeld s"
    using assms(1) by (simp_all add: boardInv_def)
  have w: "within first s" by (rule selection_in[OF so assms(2)])
  have ok: "slotOk (Some s1)" using repOk_cell[OF r w] assms(3) by simp
  have held: "controller s1 = Some p" using sh assms(2,3) by (auto simp: selectionHeld_def)
  have i': "boardInv ?s'" by (rule boardInv_unselectFirst[OF assms(1)])
  have w': "within first ?s'" using w by (simp add: within_def)
  have c': "cellOf ?s' first = Some s1" using assms(3) by (simp add: cellOf_def)
  show ?thesis
  proof (rule boardInv_modifySlot[OF i' w' c'])
    show "slotOk (Some (g s1))" using ok assms(4,5) by (simp add: slotOk_def)
    show "\<forall>p'. map_of (firstSelection ?s') p' = Some first \<longrightarrow> faceUp (g s1) \<and> controller (g s1) = Some p'"
    proof (intro allI impI)
      fix p'
      assume "map_of (firstSelection ?s') p' = Some first"
      then have "p' \<noteq> p" "map_of (firstSelection s) p' = Some first"
        by (auto simp: unselectFirst_def delete_conv' split: if_splits)
      then have "controller s1 = Some p'" using sh assms(3) by (auto simp: selectionHeld_def)
      then show "faceUp (g s1) \<and> controller (g s1) = Some p'" using held \<open>p' \<noteq> p\<close> by simp
    qed
  qed
qed

lemma boardInv_relinquish:
  assumes "boardInv s"
  shows "boardInv (snd (relinquishFirstOnly p s))"
proof (cases "map_of (firstSelection s) p")
  case None
  then show ?thesis using assms by (simp add: relinquishFirstOnly_def)
next
  case (Some first)
  have r: "repOk s" and so: "selectionsOk s" using assms by (simp_all add: boardInv_def)
  have w: "within first s" by (rule selection_in[OF so Some])
  note eq = relinquish_ok[OF r w Some]
  show ?thesis
  proof (cases "cellOf s first")
    case None
    then show ?thesis using eq boardInv_unselectFirst[OF assms, of p] by (simp add: cellOf_def)
  next
    case (Some s1)
    let ?g = "\<lambda>sl. sl\<lparr>controller := None\<rparr>"
    have held: "faceUp s1"
      using assms \<open>map_of (firstSelection s) p = Some first\<close> Some by (auto simp: boardInv_def selectionHeld_def)
    have "boardInv (modifySlot first ?g (unselectFirst p s))"
      using held by (intro boardInv_release[OF assms \<open>map_of (firstSelection s) p = Some first\<close> Some]) simp_all
    moreover have "boardInv (unselectFirst p (wakeNext first (modifySlot first ?g s)))
        = boardInv (modifySlot first ?g (unselectFirst p s))"
      by (rule boardInv_cong) (simp_all add: modifySlot_def unselectFirst_def)
    ultimately show ?thesis using eq Some by (simp add: cellOf_def)
  qed
qed

lemma boardInv_relinquishThenThrow: "boardInv s \<Longrightarrow> boardInv (snd (relinquishThenThrow p e s))"
  using boardInv_relinquish[of s p]
  by (cases "relinquishFirstOnly p s") (auto simp: relinquishThenThrow_def split: sum.splits)

text \<open>Rules 2-C, 2-D and 2-E: the second card is accepted and the pair is resolved.\<close>

lemma boardInv_resolve:
  assumes "boardInv sA" "map_of (firstSelection sA) p = Some first" "cellOf sA first = Some s1"
    and "within pos sA" "cellOf sA pos = Some s2" "faceUp s2" "controller s2 = None"
  shows "boardInv (unselectFirst p (resolvePair first pos p l1 l2 sA))"
    and "boardInv (unselectFirst p (notifyChange (resolvePair first pos p l1 l2 sA)))"
proof -
  have r: "repOk sA" and so: "selectionsOk sA" and sh: "selectionHeld sA" and shape: "shapeOk sA"
    using assms(1) by (simp_all add: boardInv_def repOk_def)
  have w: "within first sA" by (rule selection_in[OF so assms(2)])
  have held: "faceUp s1" "controller s1 = Some p"
    using sh assms(2,3) by (auto simp: selectionHeld_def)
  have ne: "pos \<noteq> first" using assms(3,5,7) held(2) by auto
  have ok2: "slotOk (Some s2)" using repOk_cell[OF r assms(4)] assms(5) by simp
  have step: "boardInv (modifySlot pos (\<lambda>sl. sl\<lparr>controller := c\<rparr>)
      (modifySlot first (\<lambda>sl. sl\<lparr>controller := c\<rparr>) (unselectFirst p sA)))" for c
  proof -
    let ?h = "\<lambda>sl. sl\<lparr>controller := c\<rparr>"
    let ?s3 = "unselectFirst p sA"
    let ?s4 = "modifySlot first ?h ?s3"
    have i4: "boardInv ?s4"
      using held by (intro boardInv_release[OF assms(1,2,3)]) simp_all
    have shape3: "shapeOk ?s3" using shape by (simp add: shapeOk_def)
    have w3: "within first ?s3" "within pos ?s3" using w assms(4) by (simp_all add: within_def)
    have c4: "cellOf ?s4 pos = Some s2"
      using cellOf_modifySlot[OF shape3 w3(1) w3(2), of ?h] ne assms(5) by (simp add: cellOf_def)
    have w4: "within pos ?s4" using assms(4) by (simp add: within_def)
    show ?thesis
    proof (rule boardInv_modifySlot[OF i4 w4 c4])
      show "slotOk (Some (?h s2))" using ok2 assms(6) by (simp add: slotOk_def)
      show "\<forall>p'. map_of (firstSelection ?s4) p' = Some pos \<longrightarrow> faceUp (?h s2) \<and> controller (?h s2) = Some p'"
      proof (intro allI impI)
        fix p'
        assume "map_of (firstSelection ?s4) p' = Some pos"
        then have "controller s2 = Some p'"
          using i4 c4 by (auto simp: boardInv_def selectionHeld_def)
        then show "faceUp (?h s2) \<and> controller (?h s2) = Some p'" using assms(7) by simp
      qed
    qed
  qed
  have pend: "boardInv (setPending p out (modifySlot pos (\<lambda>sl. sl\<lparr>controller := c\<rparr>)
      (modifySlot first (\<lambda>sl. sl\<lparr>controller := c\<rparr>) (unselectFirst p sA))))"
    if "out = Matched first pos \<or> out = Mismatched first pos" for out c
    using step[of c] that w assms(4)
    by (intro boardInv_setPending) (auto simp: outcomeOk_def within_def)
  let ?c = "if l1 = l2 then Some p else None"
  let ?out = "if l1 = l2 then Matched first pos else Mismatched first pos"
  let ?canon = "setPending p ?out (modifySlot pos (\<lambda>sl. sl\<lparr>controller := ?c\<rparr>)
      (modifySlot first (\<lambda>sl. sl\<lparr>controller := ?c\<rparr>) (unselectFirst p sA)))"
  have canon: "boardInv ?canon" by (rule pend) simp
  have "boardInv (unselectFirst p (resolvePair first pos p l1 l2 sA)) = boardInv ?canon"
    by (rule boardInv_cong)
      (simp_all add: resolvePair_def modifySlot_def unselectFirst_def setPending_def)
  then show "boardInv (unselectFirst p (resolvePair first pos p l1 l2 sA))" using canon by simp
  have "boardInv (unselectFirst p (notifyChange (resolvePair first pos p l1 l2 sA))) = boardInv ?canon"
    by (rule boardInv_cong)
      (simp_all add: resolvePair_def modifySlot_def unselectFirst_def setPending_def)
  then show "boardInv (unselectFirst p (notifyChange (resolvePair first pos p l1 l2 sA)))"
    using canon by simp
qed

lemma boardInv_flipSecond:
  assumes "boardInv s"
  shows "boardInv (snd (flipSecond pos p s))"
proof (cases "map_of (firstSelection s) p")
  case None
  then show ?thesis using assms by (simp add: flipSecond_def)
next
  case (Some first)
  have r: "repOk s" and so: "selectionsOk s" and sh: "selectionHeld s" and shape: "shapeOk s"
    using assms by (simp_all add: boardInv_def repOk_def)
  have wf: "within first s" by (rule selection_in[OF so Some])
  note rel = boardInv_relinquishThenThrow[OF assms, of p]
  show ?thesis
  proof (cases "within pos s")
    case False
    then show ?thesis using Some rel by (simp add: flipSecond_def)
  next
    case True
    have g: "getCell (pos_r pos) (pos_c pos) s = Inr (cellOf s pos)"
      by (rule getCell_cellOf[OF shape True])
    show ?thesis
    proof (cases "cellOf s pos")
      case None
      then show ?thesis using Some True g rel by (simp add: flipSecond_def)
    next
      case cell: (Some s2)
      show ?thesis
      proof (cases "faceUp s2 \<and> controller s2 \<noteq> None")
        case True
        then show ?thesis using Some \<open>within pos s\<close> g cell rel by (simp add: flipSecond_def)
      next
        case False
        let ?up = "\<lambda>sl. sl\<lparr>faceUp := True\<rparr>"
        let ?sA = "if \<not> faceUp s2 then modifySlot pos ?up s else s"
        let ?s2A = "if \<not> faceUp s2 then ?up s2 else s2"
        have ok2: "slotOk (Some s2)" using repOk_cell[OF r True] cell by simp
        have none2: "controller s2 = None" using False ok2 by (auto simp: slotOk_def)
        have iA: "boardInv ?sA"
        proof (cases "faceUp s2")
          case True
          then show ?thesis using assms by simp
        next
          case down: False
          have "boardInv (modifySlot pos ?up s)"
          proof (rule boardInv_modifySlot[OF assms True cell])
            show "slotOk (Some (?up s2))" using ok2 by (simp add: slotOk_def)
            show "\<forall>p'. map_of (firstSelection s) p' = Some pos \<longrightarrow> faceUp (?up s2) \<and> controller (?up s2) = Some p'"
              using sh cell down by (auto simp: selectionHeld_def)
          qed
          then show ?thesis using down by simp
        qed
        have shapeA: "shapeOk ?sA" using shape by simp
        have wA: "within first ?sA" "within pos ?sA" using wf True by simp_all
        have selA: "map_of (firstSelection ?sA) p = Some first" using Some by simp
        have cA: "cellOf ?sA pos = Some ?s2A"
          using cellOf_modifySlot[OF shape True True, of ?up] cell by simp
        have fA: "faceUp ?s2A" "controller ?s2A = None" using none2 by simp_all
        have slA: "slotAt first ?sA = Inr (cellOf ?sA first)" by (rule slotAt_cellOf[OF shapeA wA(1)])
        show ?thesis
        proof (cases "cellOf ?sA first")
          case None
          then show ?thesis
            using Some \<open>within pos s\<close> g cell none2 slA iA
            by (simp add: flipSecond_def Let_def)
        next
          case first_cell: (Some s1)
          note res = boardInv_resolve[OF iA selA first_cell wA(2) cA fA, of "label s1" "label s2"]
          have "snd (flipSecond pos p s) =
              unselectFirst p (if \<not> faceUp s2
                then notifyChange (resolvePair first pos p (label s1) (label s2) ?sA)
                else resolvePair first pos p (label s1) (label s2) ?sA)"
            using Some \<open>within pos s\<close> g cell none2 slA first_cell
            by (simp add: flipSecond_def Let_def checked_def)
          then show ?thesis using res by (simp split: if_splits)
        qed
      qed
    qed
  qed
qed

lemma boardInv_flipSecondAsync: "boardInv s \<Longrightarrow> boardInv (snd (flipSecondAsync pos p s))"
  using boardInv_flipSecond[of s pos p]
  by (cases "flipSecond pos p s") (simp add: flipSecondAsync_def)

lemma getCell_Some:
  assumes "shapeOk s" "getCell (pos_r q) (pos_c q) s = Inr (Some cell)"
  shows "within q s \<and> cellOf s q = Some cell"
proof -
  have i: "0 \<le> pos_r q" "nat (pos_r q) < length (grid s)"
    using assms(2) by (auto simp: getCell_def row_def split: if_splits)
  then have rw: "row (pos_r q) s = Inr (grid s ! nat (pos_r q))" by (simp add: row_def)
  have j: "0 \<le> pos_c q" "nat (pos_c q) < length (grid s ! nat (pos_r q))"
    "grid s ! nat (pos_r q) ! nat (pos_c q) = Some cell"
    using assms(2) unfolding getCell_def rw by (auto split: if_splits)
  have "length (grid s) = rows s" "length (grid s ! nat (pos_r q)) = cols s"
    using assms(1) i(2) by (simp_all add: shapeOk_def list_all_length)
  then show ?thesis using i j by (auto simp: within_def cellOf_def)
qed

lemma boardInv_relabel:
  assumes "boardInv s" "getCell (pos_r q) (pos_c q) s = Inr (Some cell)" "cardRe v"
  shows "boardInv (modifySlot q (\<lambda>sl. sl\<lparr>label := v\<rparr>) s)"
proof -
  have r: "repOk s" and sh: "selectionHeld s" and shape: "shapeOk s"
    using assms(1) by (simp_all add: boardInv_def repOk_def)
  have w: "within q s" and c: "cellOf s q = Some cell"
    using getCell_Some[OF shape assms(2)] by simp_all
  have ok: "slotOk (Some cell)" using repOk_cell[OF r w] c by simp
  show ?thesis
  proof (rule boardInv_modifySlot[OF assms(1) w c])
    show "slotOk (Some (cell\<lparr>label := v\<rparr>))" using ok assms(3) by (simp add: slotOk_def)
    show "\<forall>p. map_of (firstSelection s) p = Some q \<longrightarrow>
        faceUp (cell\<lparr>label := v\<rparr>) \<and> controller (cell\<lparr>label := v\<rparr>) = Some p"
      using sh c by (auto simp: selectionHeld_def)
  qed
qed

lemma boardInv_commitPositions:
  "boardInv s \<Longrightarrow> cardRe v \<Longrightarrow> boardInv (snd (commitPositions v qs s))"
proof (induction qs arbitrary: s)
  case Nil
  then show ?case by simp
next
  case (Cons q qs)
  show ?case
  proof (cases "getCell (pos_r q) (pos_c q) s")
    case (Inl e)
    then show ?thesis using Cons.prems by simp
  next
    case (Inr cell)
    show ?thesis
    proof (cases cell)
      case None
      then show ?thesis using Inr Cons by simp
    next
      case (Some sl)
      have "boardInv (modifySlot q (\<lambda>sl. sl\<lparr>label := v\<rparr>) s)"
        using Cons.prems Inr Some by (intro boardInv_relabel) simp_all
      then show ?thesis using Inr Some Cons by simp
    qed
  qed
qed

lemma boardInv_commitChanged:
  "boardInv (fst sc) \<Longrightarrow> cardRe v \<Longrightarrow> boardInv (fst (snd (commitChanged v qs sc)))"
proof (induction qs arbitrary: sc)
  case Nil
  then show ?case by simp
next
  case (Cons q qs)
  show ?case
  proof (cases "getCell (pos_r q) (pos_c q) (fst sc)")
    case (Inl e)
    then show ?thesis using Cons.prems by simp
  next
    case (Inr cell)
    show ?thesis
    proof (cases cell)
      case None
      then show ?thesis using Inr Cons by simp
    next
      case (Some sl)
      have "boardInv (modifySlot q (\<lambda>sl. sl\<lparr>label := v\<rparr>) (fst sc))"
        using Cons.prems Inr Some by (intro boardInv_relabel) simp_all
      then show ?thesis using Inr Some Cons by simp
    qed
  qed
qed

lemma boardInv_commitGroups:
  assumes "\<forall>orig v. map_of m orig = Some v \<longrightarrow> cardRe v"
  shows "boardInv s \<Longrightarrow> boardInv (snd (commitGroups m es s))"
proof (induction es arbitrary: s)
  case Nil
  then show ?case by simp
next
  case (Cons a es)
  obtain orig qs where a: "a = (orig, qs)" by (cases a)
  show ?case
  proof (cases "map_of m orig")
    case None
    then show ?thesis using Cons a by simp
  next
    case (Some v)
    have v: "cardRe v" using assms Some by blast
    obtain res s1 where c: "commitPositions v qs s = (res, s1)" by (cases "commitPositions v qs s")
    have "boardInv s1" using boardInv_commitPositions[OF Cons.prems v, of qs] c by simp
    then show ?thesis using Cons a Some c by (cases res) simp_all
  qed
qed

lemma boardInv_commitGroupsChanged:
  assumes "\<forall>orig v. map_of m orig = Some v \<longrightarrow> cardRe v"
  shows "boardInv (fst sc) \<Longrightarrow> boardInv (fst (snd (commitGroupsChanged m es sc)))"
proof (induction es arbitrary: sc)
  case Nil
  then show ?case by simp
next
  case (Cons a es)
  obtain orig qs where a: "a = (orig, qs)" by (cases a)
  show ?case
  proof (cases "map_of m orig")
    case None
    then show ?thesis using Cons a by simp
  next
    case (Some v)
    have v: "cardRe v" using assms Some by blast
    obtain res sc1 where c: "commitChanged v qs sc = (res, sc1)" by (cases "commitChanged v qs sc")
    have "boardInv (fst sc1)" using boardInv_commitChanged[OF Cons.prems v, of qs] c by simp
    then show ?thesis using Cons a Some c by (cases res) simp_all
  qed
qed

lemma results_valid:
  assumes "results t es = Inr m"
  shows "\<forall>orig v. map_of m orig = Some v \<longrightarrow> cardRe v"
proof (intro allI impI)
  fix orig v
  assume h: "map_of m orig = Some v"
  have none: "\<not> (\<exists>orig \<in> fst ` set es. invalidOut (t orig))"
    and m: "m = map (\<lambda>orig. (orig, t orig)) (map fst es)"
    using assms unfolding results_cases by (auto split: if_splits)
  have "orig \<in> set (map fst es) \<and> v = t orig"
    using h unfolding m map_of_keys by (auto split: if_splits)
  then show "cardRe v" using none by (intro valid_cardRe) auto
qed

lemma boardInv_mapFinish: "boardInv s \<Longrightarrow> boardInv (snd (mapFinish t es s))"
proof -
  assume a: "boardInv s"
  show ?thesis
  proof (cases "results t es")
    case (Inl e)
    then show ?thesis using a by (simp add: mapFinish_def)
  next
    case (Inr m)
    obtain res s1 where c: "commitGroups m es s = (res, s1)" by (cases "commitGroups m es s")
    have "boardInv s1" using boardInv_commitGroups[OF results_valid[OF Inr] a, of es] c by simp
    then show ?thesis using Inr c by (cases res) (simp_all add: mapFinish_def checked_def)
  qed
qed

lemma boardInv_mapCardsFinish: "boardInv s \<Longrightarrow> boardInv (snd (mapCardsFinish t es s))"
proof -
  assume a: "boardInv s"
  show ?thesis
  proof (cases "results t es")
    case (Inl e)
    then show ?thesis using a by (simp add: mapCardsFinish_def)
  next
    case (Inr m)
    obtain res sc where c: "commitGroupsChanged m es (s, False) = (res, sc)"
      by (cases "commitGroupsChanged m es (s, False)")
    have "boardInv (fst sc)"
      using boardInv_commitGroupsChanged[OF results_valid[OF Inr], of "(s, False)" es] a c by simp
    then show ?thesis using Inr c by (cases res) (simp_all add: mapCardsFinish_def checked_def)
  qed
qed

lemma boardInv_newBoard: "newBoard nr nc labels = Inr s \<Longrightarrow> boardInv s"
proof -
  assume a: "newBoard nr nc labels = Inr s"
  let ?s = "\<lparr>rows = nr, cols = nc,
      grid = map (\<lambda>i. map (\<lambda>j. freshSlot (labels ! (i * nc + j))) [0..<nc]) [0..<nr],
      firstSelection = [], pending = [], waitQueues = [], watchers = [], jobs = []\<rparr>"
  have "s = ?s \<and> repOk ?s"
    using a by (auto simp: newBoard_def Let_def checkRep_def split: if_splits sum.splits)
  then show ?thesis by (simp add: boardInv_def selectionsOk_def selectionHeld_def)
qed

text \<open>Every reachable board satisfies the invariant.\<close>

lemma reachable_boardInv: "reachable s \<Longrightarrow> boardInv s"
proof (induction rule: reachable.induct)
  case (construct nr nc labels s)
  then show ?case by (rule boardInv_newBoard)
next
  case (settle s p)
  then show ?case by (simp add: boardInv_settle_snd)
next
  case (first s pos p)
  then show ?case by (simp add: boardInv_flipFirst)
next
  case (second s pos p)
  then show ?case by (simp add: boardInv_flipSecond)
next
  case (firstAsync s pos p)
  then show ?case by (simp add: boardInv_flipFirstAsync)
next
  case (secondAsync s pos p)
  then show ?case by (simp add: boardInv_flipSecondAsync)
next
  case (job s)
  then show ?case by (simp add: boardInv_runJob)
next
  case (watching s p)
  then show ?case by simp
next
  case (mapping s0 entries s transform)
  then show ?case by (simp add: boardInv_mapFinish)
next
  case (mappingCards s0 entries s transform)
  then show ?case by (simp add: boardInv_mapCardsFinish)
qed

text \<open>
  On every reachable board \<^verbatim>\<open>checkRep\<close> passes and every recorded first selection is
  inside the grid: the hypotheses of the theorems about the flips hold between method calls.
\<close>

lemma reachable_repOk: "reachable s \<Longrightarrow> repOk s \<and> selectionsOk s \<and> checkRep s = Inr ()"
  using reachable_boardInv[of s] by (simp add: boardInv_def checkRep_def)

text \<open>
  C9. On every board reachable between method calls (from the constructor, by any
  sequence of \<^verbatim>\<open>settleBeforeNewFirstMove\<close>, \<^verbatim>\<open>flipFirst\<close>, \<^verbatim>\<open>flipSecond\<close>,
  their waiting variants, resumed waiters, \<^verbatim>\<open>watch\<close>, \<^verbatim>\<open>map\<close> and \<^verbatim>\<open>mapCards\<close>,
  whether the calls return or throw), every occupied cell that is face down has no
  controller.
\<close>

theorem reachable_face_down_uncontrolled:
  assumes "reachable s"
  shows "\<forall>i j sl. i < rows s \<and> j < cols s \<and> grid s ! i ! j = Some sl \<and> \<not> faceUp sl
    \<longrightarrow> controller sl = None"
proof (intro allI impI)
  fix i j sl
  assume h: "i < rows s \<and> j < cols s \<and> grid s ! i ! j = Some sl \<and> \<not> faceUp sl"
  have r: "repOk s" using reachable_boardInv[OF assms] by (simp add: boardInv_def)
  then have shape: "shapeOk s" by (simp add: repOk_def)
  have l: "i < length (grid s)" "j < length (grid s ! i)"
    using shape_lengths[OF shape, of i] h by simp_all
  have "list_all slotOk (grid s ! i)" using r l(1) by (simp add: repOk_def list_all_length)
  then have "slotOk (grid s ! i ! j)" using l(2) by (simp add: list_all_length)
  then show "controller sl = None" using h by (simp add: slotOk_def)
qed

text \<open>
  The theorem on \<open>board_uu_first\<close>, reached by the constructor and one first flip: the
  card at (0,1) is face down and uncontrolled.
\<close>

theorem reachable_face_down_uncontrolled_witness:
  "reachable board_uu_first \<and> 0 < rows board_uu_first \<and> 1 < cols board_uu_first
   \<and> grid board_uu_first ! 0 ! 1 = Some \<lparr>label = ''u'', faceUp = False, controller = None\<rparr>
   \<and> controller \<lparr>label = ''u'', faceUp = False, controller = None\<rparr> = None"
proof -
  let ?sl = "\<lparr>label = ''u'', faceUp = False, controller = None :: PlayerID option\<rparr>"
  have "reachable board_uu" by (rule reachable.construct[OF new_uu])
  then have "reachable (snd (flipFirst (Pos 0 0) ''alice'' board_uu))" by (rule reachable.first)
  then have r: "reachable board_uu_first" by (simp add: uu_first)
  have c: "0 < rows board_uu_first \<and> 1 < cols board_uu_first
      \<and> grid board_uu_first ! 0 ! 1 = Some ?sl \<and> \<not> faceUp ?sl"
    by (simp add: board_defs)
  show ?thesis
    using reachable_face_down_uncontrolled[OF r, rule_format, OF c] r c by simp
qed

end
